theory Spec2Isabelle
  imports Complex_Main "HOL-Library.Word" "HOL-Library.AList"
begin

unbundle bit_operations_syntax

section \<open>Python values\<close>

text \<open>
  A Python \<open>bytes\<close> object is a list of 8-bit words. A Python \<open>str\<close> is a list of code
  points; the model covers the code points below 256, one \<open>char\<close> each, so that
  \<open>length\<close> counts code points as Python's \<open>len\<close> does. All the characters the two
  source files test for (tab, newline, \<open>#\<close>, \<open>.\<close>, \<open>-\<close>, the digits, the base64
  alphabet) lie in that range.
\<close>

type_synonym byte = "8 word"
type_synonym bytes = "byte list"

text \<open>\<open>str.isspace\<close> on the code points below 256.\<close>

definition py_isspace :: "char \<Rightarrow> bool" where
  "py_isspace c =
     (let n = (of_char c :: nat)
      in (9 \<le> n \<and> n \<le> 13) \<or> (28 \<le> n \<and> n \<le> 32) \<or> n = 133 \<or> n = 160)"

definition lstrip :: "string \<Rightarrow> string" where
  "lstrip s = dropWhile py_isspace s"

definition rstrip :: "string \<Rightarrow> string" where
  "rstrip s = rev (dropWhile py_isspace (rev s))"

text \<open>\<open>s.strip()\<close> with no argument.\<close>

definition strip :: "string \<Rightarrow> string" where
  "strip s = rstrip (lstrip s)"

text \<open>\<open>s.encode('ascii')\<close>: \<open>None\<close> stands for the UnicodeEncodeError.\<close>

definition encode_ascii :: "string \<Rightarrow> bytes option" where
  "encode_ascii s =
     (if list_all (\<lambda>c. (of_char c :: nat) < 128) s then Some (map of_char s) else None)"

text \<open>\<open>b.decode('ascii')\<close> on bytes that are ASCII (base64 output always is).\<close>

definition decode_ascii :: "bytes \<Rightarrow> string" where
  "decode_ascii b = map (\<lambda>x. char_of (unat x)) b"

section \<open>The base64 codec of the standard library\<close>

text \<open>
  \<open>base64.b64encode(s)\<close> is \<open>binascii.b2a_base64(s, newline=False)\<close> and
  \<open>base64.b64decode(s)\<close> (with \<open>validate=False\<close>) is
  \<open>binascii.a2b_base64(s, strict_mode=False)\<close>. Both are modelled after the C loops of
  CPython's \<open>binascii\<close> module: the encoder emits four characters for every three bytes
  and pads the last group; the decoder skips every byte outside the alphabet, stops at
  a complete pad sequence and fails when the data characters do not fill a whole quad.
\<close>

definition table_b2a_base64 :: string where
  "table_b2a_base64 = ''ABCDEFGHIJKLMNOPQRSTUVWXYZabcdefghijklmnopqrstuvwxyz0123456789+/''"

definition b2a_char :: "byte \<Rightarrow> byte" where
  "b2a_char v = of_char (table_b2a_base64 ! unat v)"

definition BASE64_PAD :: byte where
  "BASE64_PAD = 0x3D"

fun b2a_base64 :: "bytes \<Rightarrow> bytes" where
  "b2a_base64 (a # b # c # rest) =
     [b2a_char (drop_bit 2 a),
      b2a_char (push_bit 4 (a AND 3) OR drop_bit 4 b),
      b2a_char (push_bit 2 (b AND 15) OR drop_bit 6 c),
      b2a_char (c AND 63)] @ b2a_base64 rest"
| "b2a_base64 [a, b] =
     [b2a_char (drop_bit 2 a),
      b2a_char (push_bit 4 (a AND 3) OR drop_bit 4 b),
      b2a_char (push_bit 2 (b AND 15)),
      BASE64_PAD]"
| "b2a_base64 [a] =
     [b2a_char (drop_bit 2 a),
      b2a_char (push_bit 4 (a AND 3)),
      BASE64_PAD, BASE64_PAD]"
| "b2a_base64 [] = []"

text \<open>The decoding table: the 6-bit value of an alphabet byte, \<open>None\<close> for any other byte.\<close>

definition table_a2b_base64 :: "byte \<Rightarrow> byte option" where
  "table_a2b_base64 ch =
     (if 0x41 \<le> ch \<and> ch \<le> 0x5A then Some (ch - 0x41)
      else if 0x61 \<le> ch \<and> ch \<le> 0x7A then Some (ch - 0x61 + 26)
      else if 0x30 \<le> ch \<and> ch \<le> 0x39 then Some (ch - 0x30 + 52)
      else if ch = 0x2B then Some 62
      else if ch = 0x2F then Some 63
      else None)"

text \<open>
  The decoder's loop over the input, with its state \<open>quad_pos\<close>, \<open>leftchar\<close>, \<open>pads\<close>
  and the output written so far. \<open>None\<close> stands for \<open>binascii.Error\<close>.
\<close>

fun a2b_loop :: "nat \<Rightarrow> byte \<Rightarrow> nat \<Rightarrow> bytes \<Rightarrow> bytes \<Rightarrow> bytes option" where
  "a2b_loop quad_pos leftchar pads [] bin_data =
     (if quad_pos \<noteq> 0 then None else Some bin_data)"
| "a2b_loop quad_pos leftchar pads (this_ch # rest) bin_data =
     (if this_ch = BASE64_PAD then
        (if 2 \<le> quad_pos \<and> 4 \<le> quad_pos + (pads + 1) then Some bin_data
         else a2b_loop quad_pos leftchar (if 2 \<le> quad_pos then pads + 1 else pads) rest bin_data)
      else
        (case table_a2b_base64 this_ch of
           None \<Rightarrow> a2b_loop quad_pos leftchar pads rest bin_data
         | Some v \<Rightarrow>
             (if quad_pos = 0 then a2b_loop 1 v 0 rest bin_data
              else if quad_pos = 1 then
                a2b_loop 2 (v AND 15) 0 rest (bin_data @ [push_bit 2 leftchar OR drop_bit 4 v])
              else if quad_pos = 2 then
                a2b_loop 3 (v AND 3) 0 rest (bin_data @ [push_bit 4 leftchar OR drop_bit 2 v])
              else
                a2b_loop 0 0 0 rest (bin_data @ [push_bit 6 leftchar OR v]))))"

definition a2b_base64 :: "bytes \<Rightarrow> bytes option" where
  "a2b_base64 data = a2b_loop 0 0 0 data []"

definition b64encode :: "bytes \<Rightarrow> bytes" where
  "b64encode s = b2a_base64 s"

definition b64decode :: "bytes \<Rightarrow> bytes option" where
  "b64decode s = a2b_base64 s"

section \<open>tse.py: the envelope codec\<close>

text \<open>
  The exceptions the two source files can raise. \<open>ValueError\<close> carries the fixed prefix
  of the message the source formats; \<open>zlib_error\<close> is \<open>zlib.error\<close>, which the
  streaming loop does not catch.
\<close>

datatype error = UnicodeEncodeError | ValueError string | zlib_error | KeyError

text \<open>
  zlib and gzip are C libraries outside the repository, so their objects are parameters
  of the model. \<open>gzip_read z\<close> is what \<open>gzip.GzipFile(fileobj=io.BytesIO(z)).read()\<close>
  returns (\<open>None\<close> when it raises), \<open>gzip_write x\<close> is the buffer contents after
  \<open>GzipFile(fileobj=buf, mode='wb')\<close> wrote \<open>x\<close> and was closed. A
  \<open>zlib.decompressobj\<close> and a \<open>zlib.compressobj\<close> are state machines: the initial
  state, the method that consumes a chunk and returns the bytes it releases, and
  \<open>flush\<close>.
\<close>

record 'd decompressobj =
  d_init :: 'd
  d_decompress :: "'d \<Rightarrow> bytes \<Rightarrow> ('d \<times> bytes) option"
  d_flush :: "'d \<Rightarrow> bytes"

record 'c compressobj =
  c_init :: 'c
  c_compress :: "'c \<Rightarrow> bytes \<Rightarrow> 'c \<times> bytes"
  c_flush :: "'c \<Rightarrow> bytes"

text \<open>The argument of \<open>decode_base64_gzip\<close> is a \<open>str\<close> or a \<open>bytes\<close>.\<close>

datatype py_data = Str string | Bytes bytes

definition decode_base64_gzip :: "(bytes \<Rightarrow> bytes option) \<Rightarrow> py_data \<Rightarrow> error + bytes" where
  "decode_base64_gzip gzip_read data =
     (case (case data of Str s \<Rightarrow> encode_ascii (strip s) | Bytes b \<Rightarrow> Some b) of
        None \<Rightarrow> Inl UnicodeEncodeError
      | Some raw \<Rightarrow>
          (case b64decode raw of
             None \<Rightarrow> Inl (ValueError ''base64 decode failed'')
           | Some decoded \<Rightarrow>
               (case gzip_read decoded of
                  None \<Rightarrow> Inl (ValueError ''gzip decompress failed'')
                | Some out \<Rightarrow> Inr out)))"

text \<open>
  \<open>f.read(n)\<close> on an in-memory file whose unread contents are \<open>f\<close>: the chunk and
  what stays unread. A negative size reads everything.
\<close>

definition file_read :: "int \<Rightarrow> 'a list \<Rightarrow> 'a list \<times> 'a list" where
  "file_read n f = (if n < 0 then (f, []) else (take (nat n) f, drop (nat n) f))"

text \<open>
  The \<open>while True\<close> loop of \<open>stream_decode_b64_gzip\<close>. It returns the bytes written to
  \<open>outfile\<close> so far together with either the exception that left the loop or the
  decompressor and the pending bytes at the \<open>break\<close>.
\<close>

function stream_decode_loop ::
  "'d decompressobj \<Rightarrow> int \<Rightarrow> string \<Rightarrow> 'd \<Rightarrow> bytes \<Rightarrow> bytes \<Rightarrow> (error + 'd \<times> bytes) \<times> bytes" where
  "stream_decode_loop z read_size infile decomp pending outfile =
     (if fst (file_read read_size infile) = [] then (Inr (decomp, pending), outfile)
      else
        (case encode_ascii (fst (file_read read_size infile)) of
           None \<Rightarrow> (Inl UnicodeEncodeError, outfile)
         | Some chunk \<Rightarrow>
             (if (length (pending @ chunk) div 4) * 4 = 0 then
                stream_decode_loop z read_size (snd (file_read read_size infile))
                  decomp (pending @ chunk) outfile
              else
                (case a2b_base64 (take ((length (pending @ chunk) div 4) * 4) (pending @ chunk)) of
                   None \<Rightarrow> (Inl (ValueError ''base64 decoding failed during stream''), outfile)
                 | Some decoded \<Rightarrow>
                     (case d_decompress z decomp decoded of
                        None \<Rightarrow> (Inl zlib_error, outfile)
                      | Some (decomp', out) \<Rightarrow>
                          stream_decode_loop z read_size (snd (file_read read_size infile))
                            decomp' (drop ((length (pending @ chunk) div 4) * 4) (pending @ chunk))
                            (if out \<noteq> [] then outfile @ out else outfile))))))"
  by pat_completeness auto
termination
  by (relation "measure (\<lambda>(z, read_size, infile, decomp, pending, outfile). length infile)")
     (auto simp: file_read_def split: if_splits)

text \<open>
  \<open>stream_decode_b64_gzip(infile, outfile, read_size)\<close>: the bytes written to \<open>outfile\<close>
  and the exception raised, if any.
\<close>

definition stream_decode_b64_gzip ::
  "'d decompressobj \<Rightarrow> string \<Rightarrow> int \<Rightarrow> bytes \<times> error option" where
  "stream_decode_b64_gzip z infile read_size =
     (case stream_decode_loop z read_size infile (d_init z) [] [] of
        (Inl e, outfile) \<Rightarrow> (outfile, Some e)
      | (Inr (decomp, pending), outfile) \<Rightarrow>
          (if pending \<noteq> [] then
             (case a2b_base64 pending of
                None \<Rightarrow> (outfile, Some (ValueError ''final base64 decode failed''))
              | Some decoded \<Rightarrow>
                  (case d_decompress z decomp decoded of
                     None \<Rightarrow> (outfile, Some (ValueError ''final base64 decode failed''))
                   | Some (decomp', out) \<Rightarrow> (outfile @ out @ d_flush z decomp', None)))
           else (outfile @ d_flush z decomp, None)))"

text \<open>The \<open>while True\<close> loop of \<open>stream_gzip_base64\<close>: compressor, \<open>buf\<close> and the text written.\<close>

function stream_gzip_loop ::
  "'c compressobj \<Rightarrow> int \<Rightarrow> bytes \<Rightarrow> 'c \<Rightarrow> bytes \<Rightarrow> string \<Rightarrow> 'c \<times> bytes \<times> string" where
  "stream_gzip_loop z read_size infile compr buf outfile =
     (if fst (file_read read_size infile) = [] then (compr, buf, outfile)
      else
        (case c_compress z compr (fst (file_read read_size infile)) of
           (compr', compressed) \<Rightarrow>
             (if compressed \<noteq> [] then
                (if (length (buf @ compressed) div 3) * 3 \<noteq> 0 then
                   stream_gzip_loop z read_size (snd (file_read read_size infile)) compr'
                     (drop ((length (buf @ compressed) div 3) * 3) (buf @ compressed))
                     (outfile @ decode_ascii
                        (b64encode (take ((length (buf @ compressed) div 3) * 3) (buf @ compressed))))
                 else
                   stream_gzip_loop z read_size (snd (file_read read_size infile)) compr'
                     (buf @ compressed) outfile)
              else
                stream_gzip_loop z read_size (snd (file_read read_size infile)) compr' buf outfile)))"
  by pat_completeness auto
termination
  by (relation "measure (\<lambda>(z, read_size, infile, compr, buf, outfile). length infile)")
     (auto simp: file_read_def split: if_splits)

text \<open>\<open>stream_gzip_base64(infile, outfile, read_size)\<close>: the text written to \<open>outfile\<close>.\<close>

definition stream_gzip_base64 :: "'c compressobj \<Rightarrow> bytes \<Rightarrow> int \<Rightarrow> string" where
  "stream_gzip_base64 z infile read_size =
     (case stream_gzip_loop z read_size infile (c_init z) [] [] of
        (compr, buf, outfile) \<Rightarrow>
          (let tail = c_flush z compr;
               buf' = (if tail \<noteq> [] then buf @ tail else buf)
           in if buf' \<noteq> [] then outfile @ decode_ascii (b64encode buf') else outfile))"

text \<open>
  Whole-buffer encode: the non-streaming branch of \<open>_main\<close> under \<open>--encode\<close>
  (the same statements as in \<open>_self_test\<close>): gzip the input into one member and
  base64-encode it.
\<close>

definition main_encode :: "(bytes \<Rightarrow> bytes) \<Rightarrow> bytes \<Rightarrow> string" where
  "main_encode gzip_write data = decode_ascii (b64encode (gzip_write data))"

declare stream_decode_loop.simps [simp del] stream_gzip_loop.simps [simp del]

subsection \<open>What the streaming functions feed to the library\<close>

text \<open>
  The chunks that successive \<open>read(n)\<close> calls return until the first empty one, the
  run of a decompressor over a list of pieces, and everything a decompressor or a
  compressor releases for a list of pieces, \<open>flush\<close> included.
\<close>

function reads :: "int \<Rightarrow> 'a list \<Rightarrow> 'a list list" where
  "reads n f =
     (if fst (file_read n f) = [] then [] else fst (file_read n f) # reads n (snd (file_read n f)))"
  by pat_completeness auto
termination
  by (relation "measure (\<lambda>(n, f). length f)") (auto simp: file_read_def split: if_splits)

declare reads.simps [simp del]

fun feed :: "'d decompressobj \<Rightarrow> 'd \<Rightarrow> bytes list \<Rightarrow> ('d \<times> bytes) option" where
  "feed z d [] = Some (d, [])"
| "feed z d (p # ps) =
     (case d_decompress z d p of
        None \<Rightarrow> None
      | Some (d', out) \<Rightarrow>
          (case feed z d' ps of None \<Rightarrow> None | Some (d'', outs) \<Rightarrow> Some (d'', out @ outs)))"

definition decompress_all :: "'d decompressobj \<Rightarrow> bytes list \<Rightarrow> bytes option" where
  "decompress_all z ps =
     (case feed z (d_init z) ps of None \<Rightarrow> None | Some (d, outs) \<Rightarrow> Some (outs @ d_flush z d))"

fun compress_from :: "'c compressobj \<Rightarrow> 'c \<Rightarrow> bytes list \<Rightarrow> bytes" where
  "compress_from z c [] = c_flush z c"
| "compress_from z c (p # ps) =
     (case c_compress z c p of (c', out) \<Rightarrow> out @ compress_from z c' ps)"

definition compress_all :: "'c compressobj \<Rightarrow> bytes list \<Rightarrow> bytes" where
  "compress_all z ps = compress_from z (c_init z) ps"

text \<open>A byte that is ASCII and not white space, as every byte of base64 output is.\<close>

definition ascii_nonspace :: "byte \<Rightarrow> bool" where
  "ascii_nonspace b \<longleftrightarrow> unat b < 128 \<and> \<not> py_isspace (char_of (unat b))"

text \<open>The bytes of the input that belong to the base64 alphabet.\<close>

definition data_chars :: "bytes \<Rightarrow> bytes" where
  "data_chars raw = filter (\<lambda>b. table_a2b_base64 b \<noteq> None) raw"

subsection \<open>When the base64 stage fails\<close>

text \<open>
  The bytes the non-strict decoder looks at: the alphabet characters and the pad
  \<open>=\<close>; every other byte is skipped.
\<close>

definition significant :: "bytes \<Rightarrow> bytes" where
  "significant raw = filter (\<lambda>b. b = BASE64_PAD \<or> table_a2b_base64 b \<noteq> None) raw"

text \<open>
  A pad completes the input when, among the significant bytes, it comes after three
  alphabet characters of an unfinished group of four, or is the second of two pads in
  a row after two alphabet characters of an unfinished group. The decoder stops there
  and ignores what follows.
\<close>

definition pad_complete :: "bytes \<Rightarrow> bool" where
  "pad_complete raw =
     (let s = significant raw
      in list_ex (\<lambda>k. s ! k = BASE64_PAD \<and>
                      (length (data_chars (take k s)) mod 4 = 3 \<or>
                       length (data_chars (take k s)) mod 4 = 2 \<and> 0 < k \<and> s ! (k - 1) = BASE64_PAD))
           [0..<length s])"

text \<open>
  The base64 stage fails exactly on an input without a completing pad whose alphabet
  characters do not fill whole groups of four.
\<close>

definition base64_fails :: "bytes \<Rightarrow> bool" where
  "base64_fails raw \<longleftrightarrow> \<not> pad_complete raw \<and> length (data_chars raw) mod 4 \<noteq> 0"

text \<open>
  The same from a state of the decoder, for the proof: \<open>q\<close> alphabet characters of the
  current group and \<open>p\<close> pads were read before the bytes \<open>s\<close>.
\<close>

definition completes_from :: "nat \<Rightarrow> nat \<Rightarrow> bytes \<Rightarrow> bool" where
  "completes_from q p s \<longleftrightarrow>
     (\<exists>k<length s. s ! k = BASE64_PAD \<and>
        ((q + length (data_chars (take k s))) mod 4 = 3 \<or>
         (q + length (data_chars (take k s))) mod 4 = 2 \<and>
           (if k = 0 then 1 \<le> p else s ! (k - 1) = BASE64_PAD)))"

subsection \<open>The gzip member each library entry point writes\<close>

text \<open>
  The DEFLATE compressor of zlib is outside the repository and stays a parameter: a
  raw deflate stream object with the compression level it was created for. The gzip
  member around its output (RFC 1952) is written by two different pieces of library
  code. \<open>gzip.GzipFile\<close> writes the header itself: the magic bytes, method 8, no
  flags, the clock reading \<open>mtime\<close>, XFL 2 for its default \<open>compresslevel=9\<close>, OS
  255; then the raw deflate stream at level 9 and the trailer. zlib's own gzip
  wrapper, selected by \<open>wbits = 16 + MAX_WBITS\<close>, writes zero \<open>mtime\<close>, XFL 0 for the
  default level 6 and the OS code it was built with, releasing the header with the
  first output.
\<close>

record 'e deflater =
  e_init :: "nat \<Rightarrow> 'e"
  e_compress :: "'e \<Rightarrow> bytes \<Rightarrow> 'e \<times> bytes"
  e_flush :: "'e \<Rightarrow> bytes"

definition le32 :: "32 word \<Rightarrow> bytes" where
  "le32 w = [ucast w, ucast (drop_bit 8 w), ucast (drop_bit 16 w), ucast (drop_bit 24 w)]"

definition crc32_bit :: "32 word \<Rightarrow> 32 word" where
  "crc32_bit c = (if bit c 0 then drop_bit 1 c XOR 0xEDB88320 else drop_bit 1 c)"

definition crc32_byte :: "32 word \<Rightarrow> byte \<Rightarrow> 32 word" where
  "crc32_byte c b =
     crc32_bit (crc32_bit (crc32_bit (crc32_bit (crc32_bit (crc32_bit (crc32_bit (crc32_bit
       (c XOR ucast b))))))))"

definition crc32 :: "bytes \<Rightarrow> 32 word" where
  "crc32 data = NOT (foldl crc32_byte 0xFFFFFFFF data)"

definition gzip_trailer :: "bytes \<Rightarrow> bytes" where
  "gzip_trailer data = le32 (crc32 data) @ le32 (of_nat (length data))"

definition GzipFile_write :: "'e deflater \<Rightarrow> 32 word \<Rightarrow> bytes \<Rightarrow> bytes" where
  "GzipFile_write eng mtime data =
     (case (if data \<noteq> [] then e_compress eng (e_init eng 9) data else (e_init eng 9, [])) of
        (e, body) \<Rightarrow>
          [0x1F, 0x8B, 8, 0] @ le32 mtime @ [2, 0xFF] @ body @ e_flush eng e @ gzip_trailer data)"

definition zlib_gzip_header :: "byte \<Rightarrow> bytes" where
  "zlib_gzip_header os_code = [0x1F, 0x8B, 8, 0, 0, 0, 0, 0, 0, os_code]"

text \<open>
  \<open>zlib.compressobj(wbits=16 + zlib.MAX_WBITS)\<close>: the state is the raw compressor,
  whether the header is out, and the input seen so far (for the trailer).
\<close>

definition zlib_compressobj :: "'e deflater \<Rightarrow> byte \<Rightarrow> ('e \<times> bool \<times> bytes) compressobj" where
  "zlib_compressobj eng os_code =
     \<lparr>c_init = (e_init eng 6, False, []),
      c_compress = (\<lambda>(e, started, seen) chunk.
         (case e_compress eng e chunk of
            (e', out) \<Rightarrow>
              ((e', True, seen @ chunk),
               (if started then [] else zlib_gzip_header os_code) @ out))),
      c_flush = (\<lambda>(e, started, seen).
         (if started then [] else zlib_gzip_header os_code) @ e_flush eng e @ gzip_trailer seen)\<rparr>"

subsection \<open>A library instance for concrete runs\<close>

text \<open>
  To run the model on concrete inputs, an instance of the library parameters: a
  compressor that stores (DEFLATE block type 0, one block of at most 65535 bytes after
  the other, released at \<open>flush\<close>), the reader for the members it produces (no
  optional header fields), and a decompressor object that collects its input and
  releases the output at \<open>flush\<close>.
\<close>

definition le16 :: "nat \<Rightarrow> bytes" where
  "le16 n = [of_nat (n mod 256), of_nat (n div 256 mod 256)]"

function stored_blocks :: "bytes \<Rightarrow> bytes" where
  "stored_blocks data =
     (if length data \<le> 65535
      then [1] @ le16 (length data) @ le16 (65535 - length data) @ data
      else [0, 0xFF, 0xFF, 0, 0] @ take 65535 data @ stored_blocks (drop 65535 data))"
  by pat_completeness auto
termination
  by (relation "measure length") auto

declare stored_blocks.simps [simp del]

definition stored_deflater :: "bytes deflater" where
  "stored_deflater =
     \<lparr>e_init = (\<lambda>level. []),
      e_compress = (\<lambda>e chunk. (e @ chunk, [])),
      e_flush = stored_blocks\<rparr>"

function stored_inflate :: "bytes \<Rightarrow> (bytes \<times> bytes) option" where
  "stored_inflate bs =
     (case bs of
        h # l0 # l1 # n0 # n1 # rest \<Rightarrow>
          (let len = unat l0 + 256 * unat l1; nlen = unat n0 + 256 * unat n1
           in if (h = 0 \<or> h = 1) \<and> len + nlen = 65535 \<and> len \<le> length rest then
                (if h = 1 then Some (take len rest, drop len rest)
                 else (case stored_inflate (drop len rest) of
                         None \<Rightarrow> None
                       | Some (out, remaining) \<Rightarrow> Some (take len rest @ out, remaining)))
              else None)
      | _ \<Rightarrow> None)"
  by pat_completeness auto
termination
  by (relation "measure length") auto

declare stored_inflate.simps [simp del]

definition stored_gzip_read :: "bytes \<Rightarrow> bytes option" where
  "stored_gzip_read z =
     (if take 4 z = [0x1F, 0x8B, 8, 0] \<and> 10 \<le> length z then
        (case stored_inflate (drop 10 z) of
           None \<Rightarrow> None
         | Some (out, remaining) \<Rightarrow> if remaining = gzip_trailer out then Some out else None)
      else None)"

definition collecting_decompressobj :: "bytes decompressobj" where
  "collecting_decompressobj =
     \<lparr>d_init = [],
      d_decompress = (\<lambda>d chunk. Some (d @ chunk, [])),
      d_flush = (\<lambda>d. case stored_gzip_read d of None \<Rightarrow> [] | Some out \<Rightarrow> out)\<rparr>"

section \<open>youtubers\_life\_save\_editor.py: the table serializer\<close>

subsection \<open>Cells and the conversions of the standard library\<close>

text \<open>
  A cell is what the \<open>try\<close> block of \<open>parse_save_data\<close> stores: an \<open>int\<close>, a
  \<open>float\<close> or the \<open>str\<close> itself. A \<open>Float q\<close> stands for the binary64 value that
  \<open>float\<close> returns for a literal denoting the rational \<open>q\<close>; the rounding to binary64
  is not modelled.
\<close>

datatype cell = Integer int | Float rat | Text string

text \<open>
  \<open>str.isdigit\<close> accepts the characters of numeric type Digit or Decimal; below 256
  these are \<open>0\<close> to \<open>9\<close> and the superscripts two, three and one. \<open>int\<close> and
  \<open>float\<close> accept decimal digits only.
\<close>

definition py_isdecimal :: "char \<Rightarrow> bool" where
  "py_isdecimal c = (let n = (of_char c :: nat) in 48 \<le> n \<and> n \<le> 57)"

definition py_isdigit :: "char \<Rightarrow> bool" where
  "py_isdigit c =
     (let n = (of_char c :: nat) in (48 \<le> n \<and> n \<le> 57) \<or> n = 178 \<or> n = 179 \<or> n = 185)"

definition isdigit :: "string \<Rightarrow> bool" where
  "isdigit s \<longleftrightarrow> s \<noteq> [] \<and> list_all py_isdigit s"

definition digit_value :: "char \<Rightarrow> nat" where
  "digit_value c = of_char c - 48"

definition decimal_value :: "string \<Rightarrow> nat" where
  "decimal_value s = foldl (\<lambda>acc c. 10 * acc + digit_value c) 0 s"

text \<open>The text after one leading minus sign, if there is one.\<close>

definition unsigned_part :: "string \<Rightarrow> string" where
  "unsigned_part s = (case s of [] \<Rightarrow> [] | c # r \<Rightarrow> if c = CHR ''-'' then r else s)"

definition is_negative :: "string \<Rightarrow> bool" where
  "is_negative s = (case s of [] \<Rightarrow> False | c # r \<Rightarrow> c = CHR ''-'')"

text \<open>
  \<open>int(value)\<close> and \<open>float(value)\<close> on the strings that reach them: the guards of the
  source let through only digit characters, \<open>.\<close> and \<open>-\<close>, so white space, \<open>+\<close>,
  underscores, exponents and the words \<open>inf\<close> and \<open>nan\<close> never occur. \<open>None\<close> stands
  for the ValueError. The interpreter bounds the conversions between \<open>int\<close> and
  \<open>str\<close>: \<open>int(s)\<close> raises ValueError when \<open>s\<close> has more digit characters than
  \<open>sys.get_int_max_str_digits()\<close>, leading zeros counted, and \<open>str(i)\<close> raises
  ValueError when \<open>i\<close> has more decimal digits than that. The bound is the
  interpreter's default 4300; \<open>float(s)\<close> has no such bound.
\<close>

definition int_max_str_digits :: nat where
  "int_max_str_digits = 4300"

definition int_of_text :: "string \<Rightarrow> int" where
  "int_of_text s =
     (if is_negative s then - int (decimal_value (unsigned_part s))
      else int (decimal_value (unsigned_part s)))"

definition py_int :: "string \<Rightarrow> int option" where
  "py_int s =
     (if unsigned_part s \<noteq> [] \<and> list_all py_isdecimal (unsigned_part s) \<and>
         length (unsigned_part s) \<le> int_max_str_digits
      then Some (int_of_text s) else None)"

definition not_point :: "char \<Rightarrow> bool" where
  "not_point c \<longleftrightarrow> c \<noteq> CHR ''.''"

definition float_of_text :: "string \<Rightarrow> rat" where
  "float_of_text s =
     (let ip = takeWhile not_point (unsigned_part s);
          fp = drop 1 (dropWhile not_point (unsigned_part s));
          q = of_nat (decimal_value ip) + of_nat (decimal_value fp) / 10 ^ length fp
      in if is_negative s then - q else q)"

definition py_float :: "string \<Rightarrow> rat option" where
  "py_float s =
     (let ip = takeWhile not_point (unsigned_part s);
          fp = drop 1 (dropWhile not_point (unsigned_part s))
      in if list_all py_isdecimal ip \<and> list_all py_isdecimal fp \<and> \<not> (ip = [] \<and> fp = [])
         then Some (float_of_text s) else None)"

text \<open>The decimal digits of a natural number, and the text of an \<open>int\<close>.\<close>

function digits_of_nat :: "nat \<Rightarrow> string" where
  "digits_of_nat n =
     (if n < 10 then [char_of (48 + n)]
      else digits_of_nat (n div 10) @ [char_of (48 + n mod 10)])"
  by pat_completeness auto
termination
  by (relation "measure id") auto

declare digits_of_nat.simps [simp del]

definition int_text :: "int \<Rightarrow> string" where
  "int_text i = (if i < 0 then CHR ''-'' # digits_of_nat (nat (- i)) else digits_of_nat (nat i))"

text \<open>\<open>str(i)\<close> for an \<open>int\<close>: it raises ValueError when \<open>i\<close> has too many digits.\<close>

definition str_int :: "int \<Rightarrow> error + string" where
  "str_int i =
     (if int_max_str_digits < length (digits_of_nat (nat \<bar>i\<bar>))
      then Inl (ValueError ''Exceeds the limit (4300 digits) for integer string conversion'')
      else Inr (int_text i))"

text \<open>
  \<open>str(v)\<close> for a cell. The shortest-repr text of a \<open>float\<close> is a parameter
  \<open>float_repr\<close> of the model.
\<close>

fun py_str :: "(rat \<Rightarrow> string) \<Rightarrow> cell \<Rightarrow> error + string" where
  "py_str float_repr (Integer i) = str_int i"
| "py_str float_repr (Float q) = Inr (float_repr q)"
| "py_str float_repr (Text s) = Inr s"

text \<open>\<open>s.split(sep)\<close> for a one-character separator, and \<open>sep.join(xs)\<close>.\<close>

fun split_on :: "char \<Rightarrow> string \<Rightarrow> string list" where
  "split_on sep [] = [[]]"
| "split_on sep (c # cs) =
     (if c = sep then [] # split_on sep cs
      else (c # hd (split_on sep cs)) # tl (split_on sep cs))"

fun join :: "string \<Rightarrow> string list \<Rightarrow> string" where
  "join sep [] = []"
| "join sep [x] = x"
| "join sep (x # y # ys) = x @ sep @ join sep (y # ys)"

definition TAB :: char where
  "TAB = CHR 0x09"

definition NL :: char where
  "NL = CHR 0x0A"

subsection \<open>parse\_save\_data\<close>

text \<open>
  A Python \<open>dict\<close> keeps its keys in insertion order and assigning to a key that is
  present keeps its place: an association list with \<open>AList.update\<close>. A row maps column
  names to cells; \<open>tables\<close> maps table names to row lists; \<open>table_headers\<close> maps
  table names to the captured header.
\<close>

type_synonym row = "(string \<times> cell) list"
type_synonym tables = "(string \<times> row list) list"
type_synonym headers = "(string \<times> string list) list"

record parse_state =
  tables :: tables
  table_headers :: headers
  current_table :: "string option"
  current_headers :: "string list"

text \<open>The \<open>try\<close> block: the cell for the text of one field.\<close>

definition convert_value :: "string \<Rightarrow> cell" where
  "convert_value v =
     (if CHR ''.'' \<in> set v \<and>
         isdigit (filter (\<lambda>c. c \<noteq> CHR ''-'') (filter (\<lambda>c. c \<noteq> CHR ''.'') v))
      then (case py_float v of Some q \<Rightarrow> Float q | None \<Rightarrow> Text v)
      else if isdigit v \<or> (take 1 v = ''-'' \<and> isdigit (drop 1 v))
      then (case py_int v of Some i \<Rightarrow> Integer i | None \<Rightarrow> Text v)
      else Text v)"

text \<open>\<open>while len(parts) < len(current_headers): parts.append('')\<close>\<close>

function pad_parts :: "string list \<Rightarrow> nat \<Rightarrow> string list" where
  "pad_parts parts n = (if length parts < n then pad_parts (parts @ ['''']) n else parts)"
  by pat_completeness auto
termination
  by (relation "measure (\<lambda>(parts, n). n - length parts)") auto

declare pad_parts.simps [simp del]

text \<open>\<open>parts[i] if i < len(parts) else ''\<close>\<close>

definition part_at :: "string list \<Rightarrow> nat \<Rightarrow> string" where
  "part_at parts i = (if i < length parts then parts ! i else [])"

text \<open>\<open>for i, header in enumerate(current_headers)\<close>, from index \<open>i\<close> on.\<close>

fun build_row :: "string list \<Rightarrow> string list \<Rightarrow> nat \<Rightarrow> row \<Rightarrow> row" where
  "build_row [] parts i row = row"
| "build_row (header # hs) parts i row =
     build_row hs parts (i + 1) (AList.update header (convert_value (part_at parts i)) row)"

text \<open>
  The body of \<open>for line in lines\<close>. \<open>tables[current_table]\<close> raises KeyError when the
  key is missing.
\<close>

definition parse_line :: "parse_state \<Rightarrow> string \<Rightarrow> error + parse_state" where
  "parse_line st raw =
     (let line = strip raw in
      if line = [] then Inr st
      else if take 3 line = ''###'' then
        Inr (st\<lparr>current_table := Some (drop 3 line),
                tables := AList.update (drop 3 line) [] (tables st),
                current_headers := []\<rparr>)
      else
        (case current_table st of
           None \<Rightarrow> Inr st
         | Some ct \<Rightarrow>
             (let parts = split_on TAB line in
              if current_headers st = [] \<and> 1 < length parts then
                Inr (st\<lparr>current_headers := parts,
                        table_headers := AList.update ct parts (table_headers st)\<rparr>)
              else if current_headers st \<noteq> [] \<and> length parts \<le> length (current_headers st) then
                (let parts' = pad_parts parts (length (current_headers st));
                     row = build_row (current_headers st) parts' 0 []
                 in case map_of (tables st) ct of
                      None \<Rightarrow> Inl KeyError
                    | Some rows \<Rightarrow> Inr (st\<lparr>tables := AList.update ct (rows @ [row]) (tables st)\<rparr>))
              else Inr st)))"

fun parse_lines :: "parse_state \<Rightarrow> string list \<Rightarrow> error + parse_state" where
  "parse_lines st [] = Inr st"
| "parse_lines st (line # lines) =
     (case parse_line st line of Inl e \<Rightarrow> Inl e | Inr st' \<Rightarrow> parse_lines st' lines)"

definition initial_state :: parse_state where
  "initial_state = \<lparr>tables = [], table_headers = [], current_table = None, current_headers = []\<rparr>"

text \<open>
  \<open>parse_save_data(data)\<close>: the \<open>tables\<close> it returns and the \<open>table_headers\<close> it
  stores in \<open>self\<close>.
\<close>

definition parse_save_data :: "string \<Rightarrow> error + tables \<times> headers" where
  "parse_save_data data =
     (case parse_lines initial_state (split_on NL data) of
        Inl e \<Rightarrow> Inl e
      | Inr st \<Rightarrow> Inr (tables st, table_headers st))"

subsection \<open>save\_as\_yls: the text it builds\<close>

text \<open>
  A list comprehension whose elements may raise: the values in order, or the first
  exception.
\<close>

fun collect :: "(error + 'a) list \<Rightarrow> error + 'a list" where
  "collect [] = Inr []"
| "collect (x # xs) =
     (case x of
        Inl e \<Rightarrow> Inl e
      | Inr v \<Rightarrow> (case collect xs of Inl e \<Rightarrow> Inl e | Inr vs \<Rightarrow> Inr (v # vs)))"

text \<open>\<open>'\t'.join([str(row.get(col, '')) for col in headers])\<close>\<close>

definition row_text :: "(rat \<Rightarrow> string) \<Rightarrow> string list \<Rightarrow> row \<Rightarrow> error + string" where
  "row_text float_repr headers row =
     (case collect (map (\<lambda>col. case map_of row col of
                                  None \<Rightarrow> Inr []
                                | Some v \<Rightarrow> py_str float_repr v) headers) of
        Inl e \<Rightarrow> Inl e
      | Inr values \<Rightarrow> Inr (join [TAB] values))"

text \<open>\<open>for row in table_data\<close>: the text after the rows were added.\<close>

fun rows_text :: "(rat \<Rightarrow> string) \<Rightarrow> string list \<Rightarrow> string \<Rightarrow> row list \<Rightarrow> error + string" where
  "rows_text float_repr headers text_data [] = Inr text_data"
| "rows_text float_repr headers text_data (row # rest) =
     (case row_text float_repr headers row of
        Inl e \<Rightarrow> Inl e
      | Inr values \<Rightarrow> rows_text float_repr headers (text_data @ values @ [NL]) rest)"

text \<open>The body of \<open>for table_name, table_data in self.tables.items()\<close>.\<close>

definition table_text ::
  "(rat \<Rightarrow> string) \<Rightarrow> headers \<Rightarrow> string \<Rightarrow> string \<times> row list \<Rightarrow> error + string" where
  "table_text float_repr captured text_data t =
     (case t of (table_name, table_data) \<Rightarrow>
        (let text1 = text_data @ ''###'' @ table_name @ [NL]
         in if table_data \<noteq> [] then
              (let headers =
                     (case map_of captured table_name of
                        Some hs \<Rightarrow> hs
                      | None \<Rightarrow> map fst (hd table_data))
               in case rows_text float_repr headers (text1 @ join [TAB] headers @ [NL]) table_data of
                    Inl e \<Rightarrow> Inl e
                  | Inr text2 \<Rightarrow> Inr (text2 @ [NL]))
            else Inr (text1 @ [NL])))"

text \<open>The loop over the tables.\<close>

fun tables_text ::
  "(rat \<Rightarrow> string) \<Rightarrow> headers \<Rightarrow> string \<Rightarrow> tables \<Rightarrow> error + string" where
  "tables_text float_repr captured text_data [] = Inr text_data"
| "tables_text float_repr captured text_data (t # rest) =
     (case table_text float_repr captured text_data t of
        Inl e \<Rightarrow> Inl e
      | Inr text_data' \<Rightarrow> tables_text float_repr captured text_data' rest)"

text \<open>
  The \<open>text_data\<close> of \<open>save_as_yls\<close>, which it then compresses, encodes and writes to
  the file, or the exception that \<open>str\<close> raised; \<open>captured\<close> is \<open>self.table_headers\<close>.
\<close>

definition save_as_yls_text :: "(rat \<Rightarrow> string) \<Rightarrow> tables \<Rightarrow> headers \<Rightarrow> error + string" where
  "save_as_yls_text float_repr tbls captured = tables_text float_repr captured [] tbls"

subsection \<open>The type inference rule in the specification's words\<close>

text \<open>
  Section 4.3 of the specification, read with \<open>digit\<close> as decimal digit and with
  \<open>all characters are digits\<close> as false for the empty text (the specification sends the
  empty string to Text): (1) the text contains a decimal point and, after stripping at
  most one leading minus sign and the decimal point, all remaining characters are
  digits: Float; (2) all characters are digits, or one leading minus sign followed by
  all digits: Integer; (3) otherwise Text.
\<close>

definition all_digits :: "string \<Rightarrow> bool" where
  "all_digits s \<longleftrightarrow> s \<noteq> [] \<and> list_all py_isdecimal s"

definition type_inference :: "string \<Rightarrow> cell" where
  "type_inference v =
     (if CHR ''.'' \<in> set v \<and> all_digits (remove1 CHR ''.'' (unsigned_part v))
      then Float (float_of_text v)
      else if all_digits v \<or> (is_negative v \<and> all_digits (unsigned_part v))
      then Integer (int_of_text v)
      else Text v)"

subsection \<open>The invariant of the parsing loop\<close>

text \<open>
  Between two lines, \<open>current_table\<close> is a key of \<open>tables\<close> whenever it is set, and
  no header is held while no table is open.
\<close>

definition state_ok :: "parse_state \<Rightarrow> bool" where
  "state_ok st =
     (case current_table st of
        None \<Rightarrow> current_headers st = []
      | Some ct \<Rightarrow> map_of (tables st) ct \<noteq> None)"

subsection \<open>The text that save\_as\_yls writes, line by line\<close>

text \<open>
  The text of a cell when \<open>str\<close> returns, the field of a row under a column
  (\<open>str(row.get(col, ''))\<close>), and the line of a row for a header.
\<close>

fun cell_text :: "(rat \<Rightarrow> string) \<Rightarrow> cell \<Rightarrow> string" where
  "cell_text float_repr (Integer i) = int_text i"
| "cell_text float_repr (Float q) = float_repr q"
| "cell_text float_repr (Text s) = s"

definition field_text :: "(rat \<Rightarrow> string) \<Rightarrow> row \<Rightarrow> string \<Rightarrow> string" where
  "field_text float_repr row col =
     (case map_of row col of None \<Rightarrow> [] | Some v \<Rightarrow> cell_text float_repr v)"

definition row_line :: "(rat \<Rightarrow> string) \<Rightarrow> string list \<Rightarrow> row \<Rightarrow> string" where
  "row_line float_repr hs row = join [TAB] (map (field_text float_repr row) hs)"

text \<open>The header that \<open>save_as_yls\<close> uses for a table with rows.\<close>

definition headers_for :: "headers \<Rightarrow> string \<times> row list \<Rightarrow> string list" where
  "headers_for captured t =
     (case map_of captured (fst t) of Some hs \<Rightarrow> hs | None \<Rightarrow> map fst (hd (snd t)))"

text \<open>
  The lines written for one table: the marker, then for a table with rows the header
  line and one line per row, then the blank line.
\<close>

definition table_lines :: "(rat \<Rightarrow> string) \<Rightarrow> string list \<Rightarrow> string \<times> row list \<Rightarrow> string list" where
  "table_lines float_repr hs t =
     (case t of (name, rows) \<Rightarrow>
        [''###'' @ name] @
        (if rows = [] then [] else join [TAB] hs # map (row_line float_repr hs) rows) @ [[]])"

definition unlines :: "string list \<Rightarrow> string" where
  "unlines ls = concat (map (\<lambda>l. l @ [NL]) ls)"

definition table_block :: "(rat \<Rightarrow> string) \<Rightarrow> headers \<Rightarrow> string \<times> row list \<Rightarrow> string" where
  "table_block float_repr captured t = unlines (table_lines float_repr (headers_for captured t) t)"

text \<open>
  An \<open>int\<close> that \<open>str\<close> accepts, and a table set all of whose \<open>int\<close> cells are such.
\<close>

definition int_printable :: "int \<Rightarrow> bool" where
  "int_printable i \<longleftrightarrow> length (digits_of_nat (nat \<bar>i\<bar>)) \<le> int_max_str_digits"

fun cell_printable :: "cell \<Rightarrow> bool" where
  "cell_printable (Integer i) = int_printable i"
| "cell_printable (Float q) = True"
| "cell_printable (Text s) = True"

definition row_printable :: "row \<Rightarrow> bool" where
  "row_printable row = list_all (\<lambda>kv. cell_printable (snd kv)) row"

definition printable :: "tables \<Rightarrow> bool" where
  "printable tbls = list_all (\<lambda>t. list_all row_printable (snd t)) tbls"

subsection \<open>Table sets that survive the round trip\<close>














section \<open>Facts about the base64 codec\<close>

lemma and3: "a AND 3 = take_bit 2 (a::byte)"
  and and15: "a AND 15 = take_bit 4 (a::byte)"
  and and63: "a AND 63 = take_bit 6 (a::byte)"
  by (simp_all add: take_bit_eq_mask mask_eq_exp_minus_1)

lemma Suc_Suc_diff2: "2 \<le> n \<Longrightarrow> Suc (Suc (n - 2)) = n"
  by simp

lemma quad_byte1:
  "push_bit 2 (drop_bit 2 a) OR drop_bit 4 (push_bit 4 (a AND 3) OR drop_bit 4 b) = (a::byte)"
  unfolding and3
  apply (rule bit_word_eqI)
  subgoal for n by (cases "2 \<le> n") (auto simp add: bit_simps Suc_Suc_diff2)
  done

lemma quad_byte2:
  "push_bit 4 ((push_bit 4 (a AND 3) OR drop_bit 4 b) AND 15)
     OR drop_bit 2 (push_bit 2 (b AND 15) OR drop_bit 6 c) = (b::byte)"
  unfolding and3 and15
  by (rule bit_word_eqI) (auto simp: bit_simps)

lemma quad_byte3:
  "push_bit 6 ((push_bit 2 (b AND 15) OR drop_bit 6 c) AND 3) OR (c AND 63) = (c::byte)"
  unfolding and3 and15 and63
  by (rule bit_word_eqI) (auto simp: bit_simps)

lemma pad1_byte1:
  "push_bit 2 (drop_bit 2 a) OR drop_bit 4 (push_bit 4 (a AND 3)) = (a::byte)"
  using quad_byte1 [of a 0] by simp

lemma pad2_byte2:
  "push_bit 4 ((push_bit 4 (a AND 3) OR drop_bit 4 b) AND 15)
     OR drop_bit 2 (push_bit 2 (b AND 15)) = (b::byte)"
  using quad_byte2 [of a b 0] by simp

lemma sextet_boundI: "take_bit 6 (x::byte) = x \<Longrightarrow> unat x < 64"
proof -
  assume a: "take_bit 6 x = x"
  have "unat (take_bit 6 x) = take_bit 6 (unat x)" by (simp add: unsigned_take_bit_eq)
  also have "\<dots> < 2 ^ 6" by (rule take_bit_nat_less_exp)
  finally show ?thesis using a by simp
qed

lemma sextet_bounds:
  "unat (drop_bit 2 (a::byte)) < 64"
  "unat (push_bit 4 (a AND 3) OR drop_bit 4 b) < 64"
  "unat (push_bit 2 (b AND 15) OR drop_bit 6 c) < 64"
  "unat (c AND 63) < 64"
  "unat (push_bit 4 (a AND 3)) < 64"
  "unat (push_bit 2 (b AND 15)) < 64"
  unfolding and3 and15 and63
  by (rule sextet_boundI, rule bit_word_eqI, auto simp: bit_simps dest: bit_imp_le_length)+

lemma b2a_char_table:
  "list_all (\<lambda>i. table_a2b_base64 (b2a_char (of_nat i)) = Some (of_nat i)
      \<and> b2a_char (of_nat i) \<noteq> BASE64_PAD
      \<and> unat (b2a_char (of_nat i)) < 128
      \<and> \<not> py_isspace (char_of (unat (b2a_char (of_nat i))))) [0..<64]"
  by code_simp

lemma b2a_char_props:
  assumes "unat v < 64"
  shows "table_a2b_base64 (b2a_char v) = Some v" "b2a_char v \<noteq> BASE64_PAD"
    "unat (b2a_char v) < 128" "\<not> py_isspace (char_of (unat (b2a_char v)))"
proof -
  have "unat v \<in> set [0..<64]" using assms by simp
  with b2a_char_table have
    "table_a2b_base64 (b2a_char (of_nat (unat v))) = Some (of_nat (unat v))
      \<and> b2a_char (of_nat (unat v)) \<noteq> BASE64_PAD
      \<and> unat (b2a_char (of_nat (unat v))) < 128
      \<and> \<not> py_isspace (char_of (unat (b2a_char (of_nat (unat v)))))"
    unfolding list_all_iff by blast
  then show "table_a2b_base64 (b2a_char v) = Some v" "b2a_char v \<noteq> BASE64_PAD"
    "unat (b2a_char v) < 128" "\<not> py_isspace (char_of (unat (b2a_char v)))"
    by simp_all
qed

lemma a2b_quad:
  assumes "unat s0 < 64" "unat s1 < 64" "unat s2 < 64" "unat s3 < 64"
  shows "a2b_loop 0 0 0 (b2a_char s0 # b2a_char s1 # b2a_char s2 # b2a_char s3 # ys) bin =
    a2b_loop 0 0 0 ys
      (bin @ [push_bit 2 s0 OR drop_bit 4 s1, push_bit 4 (s1 AND 15) OR drop_bit 2 s2,
              push_bit 6 (s2 AND 3) OR s3])"
  using assms by (simp add: b2a_char_props)

lemma a2b_pad1:
  assumes "unat s0 < 64" "unat s1 < 64" "unat s2 < 64"
  shows "a2b_loop 0 0 0 (b2a_char s0 # b2a_char s1 # b2a_char s2 # BASE64_PAD # ys) bin =
    Some (bin @ [push_bit 2 s0 OR drop_bit 4 s1, push_bit 4 (s1 AND 15) OR drop_bit 2 s2])"
  using assms by (simp add: b2a_char_props)

lemma a2b_pad2:
  assumes "unat s0 < 64" "unat s1 < 64"
  shows "a2b_loop 0 0 0 (b2a_char s0 # b2a_char s1 # BASE64_PAD # BASE64_PAD # ys) bin =
    Some (bin @ [push_bit 2 s0 OR drop_bit 4 s1])"
  using assms by (simp add: b2a_char_props)

text \<open>
  Decoding runs through encoded text group by group: after whole groups it goes on with
  what follows, after a padded group it stops.
\<close>

lemma a2b_loop_b2a:
  "a2b_loop 0 0 0 (b2a_base64 xs @ ys) bin =
     (if length xs mod 3 = 0 then a2b_loop 0 0 0 ys (bin @ xs) else Some (bin @ xs))"
proof (induction xs arbitrary: bin rule: b2a_base64.induct)
  case (1 a b c rest)
  have "a2b_loop 0 0 0 (b2a_base64 (a # b # c # rest) @ ys) bin
      = a2b_loop 0 0 0 (b2a_base64 rest @ ys) (bin @ [a, b, c])"
    by (simp only: b2a_base64.simps append_Cons append_Nil a2b_quad sextet_bounds
          quad_byte1 quad_byte2 quad_byte3)
  then show ?case using 1 [of "bin @ [a, b, c]"] by simp
next
  case (2 a b)
  have "a2b_loop 0 0 0 (b2a_base64 [a, b] @ ys) bin = Some (bin @ [a, b])"
    by (simp only: b2a_base64.simps append_Cons append_Nil a2b_pad1 sextet_bounds
          quad_byte1 pad2_byte2)
  then show ?case by simp
next
  case (3 a)
  have "a2b_loop 0 0 0 (b2a_base64 [a] @ ys) bin = Some (bin @ [a])"
    by (simp only: b2a_base64.simps append_Cons append_Nil a2b_pad2 sextet_bounds pad1_byte1)
  then show ?case by simp
next
  case 4
  show ?case by simp
qed

lemma a2b_b2a: "a2b_base64 (b2a_base64 xs) = Some xs"
  using a2b_loop_b2a [of xs "[]" "[]"] by (simp add: a2b_base64_def)

lemma b2a_append:
  "length xs mod 3 = 0 \<Longrightarrow> b2a_base64 (xs @ ys) = b2a_base64 xs @ b2a_base64 ys"
  by (induction xs rule: b2a_base64.induct) auto

lemma length_b2a: "length (b2a_base64 xs) mod 4 = 0"
  by (induction xs rule: b2a_base64.induct) auto

lemma take_drop_prefix:
  "length q = k \<Longrightarrow> take (k + n) (q @ r) = q @ take n r"
  "length q = k \<Longrightarrow> drop (k + n) (q @ r) = drop n r"
  by simp_all

lemma b2a_take_drop:
  "take (4 * m) (b2a_base64 zs) = b2a_base64 (take (3 * m) zs) \<and>
   drop (4 * m) (b2a_base64 zs) = b2a_base64 (drop (3 * m) zs)"
proof (induction m arbitrary: zs)
  case 0
  show ?case by simp
next
  case (Suc m)
  have e4: "4 * Suc m = 4 + 4 * m" and e3: "3 * Suc m = 3 + 3 * m" by simp_all
  show ?case
  proof (cases zs rule: b2a_base64.cases)
    case (1 a b c rest)
    define q where "q = take 4 (b2a_base64 zs)"
    have q: "b2a_base64 zs = q @ b2a_base64 rest" "length q = 4"
      using 1 by (simp_all add: q_def)
    have z: "zs = [a, b, c] @ rest" using 1 by simp
    have l3: "length [a, b, c] = 3" by simp
    have q3: "b2a_base64 ([a, b, c] @ xs) = q @ b2a_base64 xs" for xs
      using 1 by (simp add: q_def)
    show ?thesis
      unfolding q(1) e4 e3 take_drop_prefix [OF q(2)]
      unfolding z take_drop_prefix [OF l3] q3
      using Suc [of rest] by simp
  qed simp_all
qed

lemma b2a_eq_Nil: "b2a_base64 xs = [] \<longleftrightarrow> xs = []"
  by (cases xs rule: b2a_base64.cases) auto

section \<open>Facts about the streaming loops\<close>

lemma encode_ascii_Some:
  "list_all (\<lambda>ch. (of_char ch :: nat) < 128) s \<Longrightarrow> encode_ascii s = Some (map of_char s)"
  by (simp add: encode_ascii_def)

lemma prefix_take:
  assumes "p @ r = t" "n \<le> length p"
  shows "take n p = take n t" "drop n p @ r = drop n t"
  using assms by auto

lemma stream_decode_loop_b2a:
  "1 \<le> c \<Longrightarrow> pending @ map of_char infile = b2a_base64 zs \<Longrightarrow>
   list_all (\<lambda>ch. (of_char ch :: nat) < 128) infile \<Longrightarrow> length pending < 4 \<Longrightarrow>
   \<exists>ps. concat ps = zs \<and> [] \<notin> set ps \<and>
     (\<forall>d' outs. feed z decomp ps = Some (d', outs) \<longrightarrow>
        stream_decode_loop z c infile decomp pending outfile = (Inr (d', []), outfile @ outs))"
proof (induction z c infile decomp pending outfile arbitrary: zs rule: stream_decode_loop.induct)
  case (1 z c infile decomp pending outfile)
  note c = \<open>1 \<le> c\<close> and eq = \<open>pending @ map of_char infile = b2a_base64 zs\<close>
    and asc = \<open>list_all (\<lambda>ch. (of_char ch :: nat) < 128) infile\<close> and len = \<open>length pending < 4\<close>
  define chunk where "chunk = fst (file_read c infile)"
  define rest where "rest = snd (file_read c infile)"
  have cr: "chunk = take (nat c) infile" "rest = drop (nat c) infile"
    using c by (simp_all add: chunk_def rest_def file_read_def)
  show ?case
  proof (cases "infile = []")
    case True
    then have "chunk = []" by (simp add: cr)
    then have loop: "stream_decode_loop z c infile decomp pending outfile = (Inr (decomp, pending), outfile)"
      by (subst stream_decode_loop.simps) (simp add: chunk_def)
    from eq True have "pending = b2a_base64 zs" by simp
    with len length_b2a [of zs] have "pending = []" "zs = []"
      by (auto simp: b2a_eq_Nil)
    with loop show ?thesis by (intro exI [of _ "[]"]) simp
  next
    case False
    with c have ne: "chunk \<noteq> []" by (cases infile) (auto simp: cr take_Cons')
    define cb :: bytes where "cb = map of_char chunk"
    have enc: "encode_ascii chunk = Some cb"
      unfolding cb_def using asc
      by (intro encode_ascii_Some) (auto simp: cr list_all_iff dest: in_set_takeD)
    have asc': "list_all (\<lambda>ch. (of_char ch :: nat) < 128) rest"
      using asc by (auto simp: cr list_all_iff dest: in_set_dropD)
    have split: "map of_char infile = cb @ (map of_char rest :: bytes)"
      unfolding cb_def cr by (simp flip: map_append)
    define P1 where "P1 = pending @ cb"
    define n where "n = (length P1 div 4) * 4"
    have eq1: "P1 @ map of_char rest = b2a_base64 zs"
      using eq split by (simp add: P1_def)
    show ?thesis
    proof (cases "n = 0")
      case True
      have loop: "stream_decode_loop z c infile decomp pending outfile =
          stream_decode_loop z c rest decomp P1 outfile"
        using ne enc True
        by (subst stream_decode_loop.simps) (simp add: chunk_def [symmetric] rest_def [symmetric] P1_def [symmetric] n_def [symmetric])
      have "length P1 < 4" using True by (simp add: n_def)
      from "1.IH"(1) [OF ne [unfolded chunk_def] enc [unfolded chunk_def] True [unfolded n_def P1_def]
          c eq1 [unfolded rest_def P1_def] asc' [unfolded rest_def] this [unfolded P1_def]]
      show ?thesis unfolding loop P1_def rest_def .
    next
      case False
      define m where "m = length P1 div 4"
      have n4: "n = 4 * m" by (simp add: n_def m_def)
      have nle: "n \<le> length P1" by (simp add: n_def)
      define p where "p = take (3 * m) zs"
      define zs' where "zs' = drop (3 * m) zs"
      have tk: "take n P1 = b2a_base64 p"
        using prefix_take(1) [OF eq1 nle] b2a_take_drop [of m zs] by (simp add: n4 p_def)
      have dr: "drop n P1 @ map of_char rest = b2a_base64 zs'"
        using prefix_take(2) [OF eq1 nle] b2a_take_drop [of m zs] by (simp add: n4 zs'_def)
      have dec: "a2b_base64 (take n P1) = Some p" by (simp add: tk a2b_b2a)
      have pne: "p \<noteq> []"
      proof
        assume "p = []"
        then have "take n P1 = []" using tk by simp
        then show False using False nle by simp
      qed
      have len': "length (drop n P1) < 4" by (simp add: n_def)
      have zsplit: "p @ zs' = zs" by (simp add: p_def zs'_def)
      show ?thesis
      proof (cases "d_decompress z decomp p")
        case None
        have "concat (filter (\<lambda>x. x \<noteq> []) [p, zs']) = zs" using zsplit by auto
        moreover have "[] \<notin> set (filter (\<lambda>x. x \<noteq> []) [p, zs'])" by auto
        moreover have "feed z decomp (filter (\<lambda>x. x \<noteq> []) [p, zs']) = None"
          using None pne by simp
        ultimately show ?thesis by (intro exI [of _ "filter (\<lambda>x. x \<noteq> []) [p, zs']"]) simp
      next
        case (Some r)
        obtain d1 out where r: "r = (d1, out)" by (cases r)
        have loop: "stream_decode_loop z c infile decomp pending outfile =
          stream_decode_loop z c rest d1 (drop n P1) (if out \<noteq> [] then outfile @ out else outfile)"
          using ne enc False dec Some r
          by (subst stream_decode_loop.simps) (simp add: chunk_def [symmetric] rest_def [symmetric] P1_def [symmetric] n_def [symmetric])
        from "1.IH"(2) [OF ne [unfolded chunk_def] enc [unfolded chunk_def] False [unfolded n_def P1_def]
            dec [unfolded n_def P1_def] Some [unfolded r] refl c
            dr [unfolded n_def P1_def rest_def] asc' [unfolded rest_def] len' [unfolded n_def P1_def]]
        obtain ps where ps: "concat ps = zs'" "[] \<notin> set ps"
          "\<And>d' outs. feed z d1 ps = Some (d', outs) \<Longrightarrow>
              stream_decode_loop z c rest d1 (drop n P1) (if out \<noteq> [] then outfile @ out else outfile)
                = (Inr (d', []), (if out \<noteq> [] then outfile @ out else outfile) @ outs)"
          unfolding n_def P1_def rest_def by blast
        have "concat (p # ps) = zs" using ps(1) zsplit by simp
        moreover have "[] \<notin> set (p # ps)" using ps(2) pne by auto
        moreover have "stream_decode_loop z c infile decomp pending outfile = (Inr (d', []), outfile @ outs)"
          if "feed z decomp (p # ps) = Some (d', outs)" for d' outs
        proof -
          from that Some r obtain outs' where
            f: "feed z d1 ps = Some (d', outs')" and o: "outs = out @ outs'"
            by (auto split: option.splits)
          show ?thesis unfolding loop ps(3) [OF f] o by simp
        qed
        ultimately show ?thesis by (intro exI [of _ "p # ps"]) blast
      qed
    qed
  qed
qed


lemma ascii_nonspace_b2a_char: "unat v < 64 \<Longrightarrow> ascii_nonspace (b2a_char v)"
  by (simp add: ascii_nonspace_def b2a_char_props)

lemma ascii_nonspace_pad: "ascii_nonspace BASE64_PAD"
  by (simp add: ascii_nonspace_def BASE64_PAD_def py_isspace_def)

lemma b2a_ascii: "list_all ascii_nonspace (b2a_base64 xs)"
proof (induction xs rule: b2a_base64.induct)
  case (1 a b c rest)
  show ?case
    unfolding b2a_base64.simps list_all_append list.pred_inject
    by (intro conjI ascii_nonspace_b2a_char sextet_bounds 1 list.pred_inject(1))
next
  case (2 a b)
  show ?case
    unfolding b2a_base64.simps list.pred_inject
    by (intro conjI ascii_nonspace_b2a_char ascii_nonspace_pad sextet_bounds list.pred_inject(1))
next
  case (3 a)
  show ?case
    unfolding b2a_base64.simps list.pred_inject
    by (intro conjI ascii_nonspace_b2a_char ascii_nonspace_pad sextet_bounds list.pred_inject(1))
next
  case 4
  show ?case by simp
qed

lemma of_char_char_of_byte: "(of_char (char_of (unat b)) :: byte) = b"
proof -
  have "(of_char (char_of (unat b)) :: byte) = of_nat (of_char (char_of (unat b)))"
    by (simp only: of_nat_of_char)
  also have "\<dots> = of_nat (unat b mod 256)" by (simp only: of_char_of)
  also have "\<dots> = b" using unsigned_less [of b, where ?'a = nat] by simp
  finally show ?thesis .
qed

lemma of_char_nat_char_of_byte: "unat (b::byte) < 128 \<Longrightarrow> (of_char (char_of (unat b)) :: nat) = unat b"
  by simp

lemma encode_decode_ascii:
  assumes "list_all ascii_nonspace bs"
  shows "encode_ascii (decode_ascii bs) = Some bs"
proof -
  have "list_all (\<lambda>ch. (of_char ch :: nat) < 128) (decode_ascii bs)"
    using assms by (induction bs) (auto simp: decode_ascii_def ascii_nonspace_def)
  moreover have "map of_char (decode_ascii bs) = bs"
    using assms by (induction bs) (auto simp: decode_ascii_def of_char_char_of_byte)
  ultimately show ?thesis by (simp add: encode_ascii_Some)
qed

lemma strip_nonspace:
  assumes "list_all (\<lambda>c. \<not> py_isspace c) s"
  shows "strip s = s"
proof -
  have l: "dropWhile py_isspace s = s" using assms by (cases s) auto
  have "dropWhile py_isspace (rev s) = rev s"
  proof (cases "rev s")
    case Nil
    then show ?thesis by simp
  next
    case (Cons a l)
    then have "a \<in> set s" by (metis list.set_intros(1) set_rev)
    then have "\<not> py_isspace a" using assms by (simp add: list_all_iff)
    then show ?thesis by (simp add: Cons)
  qed
  with l show ?thesis by (simp add: strip_def lstrip_def rstrip_def)
qed

lemma strip_decode_ascii:
  assumes "list_all ascii_nonspace bs"
  shows "strip (decode_ascii bs) = decode_ascii bs"
  using assms by (intro strip_nonspace) (auto simp: list_all_iff decode_ascii_def ascii_nonspace_def)

lemma decode_ascii_append: "decode_ascii (xs @ ys) = decode_ascii xs @ decode_ascii ys"
  by (simp add: decode_ascii_def)

lemma b2a_take_drop3:
  assumes "n = (length B div 3) * 3"
  shows "b2a_base64 (take n B) @ b2a_base64 (drop n B @ R) = b2a_base64 (B @ R)"
proof -
  have "n \<le> length B" unfolding assms by simp
  then have "length (take n B) = n" by simp
  then have "length (take n B) mod 3 = 0" unfolding assms by simp
  from b2a_append [OF this, of "drop n B @ R"] show ?thesis
    by (metis append.assoc append_take_drop_id)
qed

lemma stream_gzip_loop_inv:
  "(case stream_gzip_loop z c infile compr buf outfile of
      (compr', buf', outfile') \<Rightarrow>
        outfile' @ decode_ascii (b2a_base64 (buf' @ c_flush z compr'))) =
   outfile @ decode_ascii (b2a_base64 (buf @ compress_from z compr (reads c infile)))"
proof (induction z c infile compr buf outfile rule: stream_gzip_loop.induct)
  case (1 z c infile compr buf outfile)
  define chunk where "chunk = fst (file_read c infile)"
  define rest where "rest = snd (file_read c infile)"
  show ?case
  proof (cases "chunk = []")
    case True
    then show ?thesis
      by (subst stream_gzip_loop.simps, subst reads.simps) (simp add: chunk_def)
  next
    case False
    obtain compr1 compressed where cc: "c_compress z compr chunk = (compr1, compressed)"
      by (cases "c_compress z compr chunk")
    have rd: "reads c infile = chunk # reads c rest"
      using False by (subst reads.simps) (simp add: chunk_def rest_def)
    have cf: "compress_from z compr (reads c infile) = compressed @ compress_from z compr1 (reads c rest)"
      by (simp add: rd cc)
    define B where "B = buf @ compressed"
    define n where "n = (length B div 3) * 3"
    show ?thesis
    proof (cases "compressed = []")
      case True
      have loop: "stream_gzip_loop z c infile compr buf outfile =
          stream_gzip_loop z c rest compr1 buf outfile"
        using False cc True
        by (subst stream_gzip_loop.simps) (simp add: chunk_def [symmetric] rest_def [symmetric])
      show ?thesis
        unfolding loop cf True
        using "1.IH"(3) [OF False [unfolded chunk_def] cc [unfolded chunk_def, symmetric] _]
        by (simp add: True rest_def)
    next
      case ne: False
      show ?thesis
      proof (cases "n = 0")
        case True
        have loop: "stream_gzip_loop z c infile compr buf outfile =
            stream_gzip_loop z c rest compr1 B outfile"
          using False cc ne True
          by (subst stream_gzip_loop.simps)
             (simp add: chunk_def [symmetric] rest_def [symmetric] B_def [symmetric] n_def [symmetric])
        show ?thesis
          unfolding loop cf
          using "1.IH"(2) [OF False [unfolded chunk_def] cc [unfolded chunk_def, symmetric] ne _]
            True
          by (simp add: rest_def B_def n_def)
      next
        case nz: False
        have loop: "stream_gzip_loop z c infile compr buf outfile =
            stream_gzip_loop z c rest compr1 (drop n B)
              (outfile @ decode_ascii (b64encode (take n B)))"
          using False cc ne nz
          by (subst stream_gzip_loop.simps)
             (simp add: chunk_def [symmetric] rest_def [symmetric] B_def [symmetric] n_def [symmetric])
        have ih: "(case stream_gzip_loop z c rest compr1 (drop n B)
              (outfile @ decode_ascii (b64encode (take n B))) of
            (compr', buf', outfile') \<Rightarrow>
              outfile' @ decode_ascii (b2a_base64 (buf' @ c_flush z compr'))) =
          (outfile @ decode_ascii (b64encode (take n B))) @
            decode_ascii (b2a_base64 (drop n B @ compress_from z compr1 (reads c rest)))"
          using "1.IH"(1) [OF False [unfolded chunk_def] cc [unfolded chunk_def, symmetric] ne _]
            nz
          by (simp add: rest_def B_def n_def)
        show ?thesis
          unfolding loop cf ih
          using b2a_take_drop3 [OF n_def, of "compress_from z compr1 (reads c rest)"]
          by (simp add: b64encode_def B_def flip: decode_ascii_append)
      qed
    qed
  qed
qed

lemma stream_gzip_base64_eq:
  "stream_gzip_base64 z infile c = decode_ascii (b64encode (compress_all z (reads c infile)))"
proof -
  obtain compr' buf' outfile' where
    l: "stream_gzip_loop z c infile (c_init z) [] [] = (compr', buf', outfile')"
    by (cases "stream_gzip_loop z c infile (c_init z) [] []")
  from stream_gzip_loop_inv [of z c infile "c_init z" "[]" "[]"] l
  have "outfile' @ decode_ascii (b2a_base64 (buf' @ c_flush z compr')) =
      decode_ascii (b2a_base64 (compress_all z (reads c infile)))"
    by (simp add: compress_all_def)
  moreover have "stream_gzip_base64 z infile c =
      outfile' @ decode_ascii (b2a_base64 (buf' @ c_flush z compr'))"
    by (simp add: stream_gzip_base64_def l Let_def b64encode_def decode_ascii_def)
  ultimately show ?thesis by (simp add: b64encode_def)
qed

lemma concat_reads: "c \<noteq> 0 \<Longrightarrow> concat (reads c f) = f"
proof (induction c f rule: reads.induct)
  case (1 n f)
  show ?case
  proof (cases "fst (file_read n f) = []")
    case True
    then have "f = []" using \<open>n \<noteq> 0\<close>
      by (cases f) (auto simp: file_read_def take_Cons' split: if_splits)
    then show ?thesis using True by (subst reads.simps) simp
  next
    case False
    have "concat (reads n f) = fst (file_read n f) @ concat (reads n (snd (file_read n f)))"
      using False by (subst reads.simps) simp
    also have "\<dots> = fst (file_read n f) @ snd (file_read n f)"
      using "1.IH" [OF False] \<open>n \<noteq> 0\<close> by simp
    also have "\<dots> = f" by (simp add: file_read_def)
    finally show ?thesis .
  qed
qed

section \<open>Facts about the library instance\<close>

lemma feed_collecting:
  "feed collecting_decompressobj d ps = Some (d @ concat ps, [])"
  by (induction ps arbitrary: d) (simp_all add: collecting_decompressobj_def)

lemma collecting_sel:
  "d_init collecting_decompressobj = []"
  "d_flush collecting_decompressobj d = (case stored_gzip_read d of None \<Rightarrow> [] | Some out \<Rightarrow> out)"
  by (simp_all add: collecting_decompressobj_def)

lemmas stored_defs =
  stored_gzip_read_def GzipFile_write_def stored_deflater_def stored_blocks.simps
  stored_inflate.simps le32_def le16_def gzip_trailer_def crc32_def crc32_byte_def crc32_bit_def

section \<open>Further facts for the codec claims\<close>

lemma reads_Nil: "reads c [] = []"
  by (subst reads.simps) (simp add: file_read_def)

lemma zlib_sel:
  "c_init (zlib_compressobj eng os_code) = (e_init eng 6, False, [])"
  "c_flush (zlib_compressobj eng os_code) (e, started, seen) =
     (if started then [] else zlib_gzip_header os_code) @ e_flush eng e @ gzip_trailer seen"
  "c_compress (zlib_compressobj eng os_code) (e, started, seen) chunk =
     (case e_compress eng e chunk of
        (e', out) \<Rightarrow>
          ((e', True, seen @ chunk), (if started then [] else zlib_gzip_header os_code) @ out))"
  by (simp_all add: zlib_compressobj_def)

lemma unat_of_char_byte: "unat (of_char c :: byte) = of_char c"
proof -
  have "(of_char c :: byte) = of_nat (of_char c)" by (simp only: of_nat_of_char)
  then have "unat (of_char c :: byte) = (of_char c :: nat) mod 256"
    by (simp add: unat_of_nat)
  moreover have "(of_char c :: nat) < 256" by simp
  ultimately show ?thesis by simp
qed

lemma char_of_b2a_char: "char_of (unat (b2a_char v)) = table_b2a_base64 ! unat v"
  by (simp add: b2a_char_def unat_of_char_byte)

lemma b64_char11:
  "decode_ascii (b2a_base64 (b0 # b1 # b2 # b3 # b4 # b5 # b6 # b7 # b8 # rest)) ! 11 =
     table_b2a_base64 ! unat (b8 AND 63)"
  by (simp add: decode_ascii_def char_of_b2a_char del: b2a_base64.simps(2,3))

lemma table_A_C: "table_b2a_base64 ! unat (0 AND 63 :: byte) = CHR ''A''"
  "table_b2a_base64 ! unat (2 AND 63 :: byte) = CHR ''C''"
  by (simp_all add: table_b2a_base64_def)

lemma a2b_loop_nopad:
  "BASE64_PAD \<notin> set raw \<Longrightarrow> q < 4 \<Longrightarrow>
   (a2b_loop q l p raw bin = None) = ((q + length (data_chars raw)) mod 4 \<noteq> 0)"
proof (induction raw arbitrary: q l p bin)
  case Nil
  then show ?case by (simp add: data_chars_def)
next
  case (Cons ch raw)
  then have np: "ch \<noteq> BASE64_PAD" "BASE64_PAD \<notin> set raw" by auto
  show ?case
  proof (cases "table_a2b_base64 ch")
    case None
    then show ?thesis using Cons.IH [OF np(2) Cons.prems(2)] np(1)
      by (simp add: data_chars_def)
  next
    case (Some v)
    from Cons.prems(2) consider "q = 0" | "q = 1" | "q = 2" | "q = 3" by linarith
    then show ?thesis
    proof cases
      case 1
      then show ?thesis using Cons.IH [OF np(2), of 1] np(1) Some
        by (simp add: data_chars_def)
    next
      case 2
      then show ?thesis using Cons.IH [OF np(2), of 2] np(1) Some
        by (simp add: data_chars_def)
    next
      case 3
      then show ?thesis using Cons.IH [OF np(2), of 3] np(1) Some
        by (simp add: data_chars_def)
    next
      case 4
      then show ?thesis using Cons.IH [OF np(2), of 0] np(1) Some
        by (simp add: data_chars_def)
    qed
  qed
qed

subsection \<open>What streaming encode releases, and the stored instance\<close>

lemma reads_nonempty: "[] \<notin> set (reads c f)"
proof (induction c f rule: reads.induct)
  case (1 n f)
  show ?case
  proof (cases "fst (file_read n f) = []")
    case True
    then show ?thesis by (subst reads.simps) simp
  next
    case False
    with "1.IH" [OF False] show ?thesis by (subst reads.simps) simp
  qed
qed

lemma decode_b64encode:
  "decode_base64_gzip gzip_read (Str (decode_ascii (b64encode x))) =
     (case gzip_read x of None \<Rightarrow> Inl (ValueError ''gzip decompress failed'') | Some out \<Rightarrow> Inr out)"
  by (simp add: decode_base64_gzip_def b64encode_def b64decode_def
      strip_decode_ascii encode_decode_ascii b2a_ascii a2b_b2a)

lemma stored_compress_from:
  "compress_from (zlib_compressobj stored_deflater os_code) (e, started, seen) ps =
     (if started then [] else zlib_gzip_header os_code) @ stored_blocks (e @ concat ps) @
     gzip_trailer (seen @ concat ps)"
proof (induction ps arbitrary: e started seen)
  case Nil
  show ?case by (simp add: zlib_sel stored_deflater_def)
next
  case (Cons p ps)
  have "c_compress (zlib_compressobj stored_deflater os_code) (e, started, seen) p =
      ((e @ p, True, seen @ p), (if started then [] else zlib_gzip_header os_code))"
    by (simp add: zlib_sel stored_deflater_def)
  then show ?case using Cons [of "e @ p" True "seen @ p"] by simp
qed

lemma stored_compress_all:
  "compress_all (zlib_compressobj stored_deflater os_code) ps =
     zlib_gzip_header os_code @ stored_blocks (concat ps) @ gzip_trailer (concat ps)"
  using stored_compress_from [of os_code "[]" False "[]" ps]
  by (simp add: compress_all_def zlib_sel stored_deflater_def)

subsection \<open>When the decoder fails\<close>

lemma table_pad: "table_a2b_base64 BASE64_PAD = None"
  by (simp add: table_a2b_base64_def BASE64_PAD_def)

lemma a2b_loop_skip:
  "ch \<noteq> BASE64_PAD \<Longrightarrow> table_a2b_base64 ch = None \<Longrightarrow>
     a2b_loop q l p (ch # raw) out = a2b_loop q l p raw out"
  by simp

lemma a2b_loop_pad:
  "a2b_loop q l p (BASE64_PAD # raw) out =
     (if 2 \<le> q \<and> 4 \<le> q + (p + 1) then Some out
      else a2b_loop q l (if 2 \<le> q then p + 1 else p) raw out)"
  by simp

lemma a2b_loop_data:
  assumes "table_a2b_base64 ch = Some v" "q < 4"
  shows "\<exists>l' out'. a2b_loop q l p (ch # raw) out = a2b_loop ((q + 1) mod 4) l' 0 raw out'"
proof -
  from assms(1) have np: "ch \<noteq> BASE64_PAD" using table_pad by auto
  from assms(2) consider "q = 0" | "q = 1" | "q = 2" | "q = 3" by linarith
  then show ?thesis
  proof cases
    case 1
    then show ?thesis using np assms(1)
      by (auto simp: numeral_2_eq_2 [symmetric] numeral_3_eq_3 [symmetric])
  next
    case 2
    then show ?thesis using np assms(1)
      by (auto simp: numeral_2_eq_2 [symmetric] numeral_3_eq_3 [symmetric])
  next
    case 3
    then show ?thesis using np assms(1)
      by (auto simp: numeral_2_eq_2 [symmetric] numeral_3_eq_3 [symmetric])
  next
    case 4
    then show ?thesis using np assms(1)
      by (auto simp: numeral_2_eq_2 [symmetric] numeral_3_eq_3 [symmetric])
  qed
qed

lemma a2b_loop_significant:
  "a2b_loop q l p raw out = a2b_loop q l p (significant raw) out"
proof (induction raw arbitrary: q l p out)
  case Nil
  show ?case by (simp add: significant_def)
next
  case (Cons ch raw)
  show ?case
  proof (cases "ch = BASE64_PAD \<or> table_a2b_base64 ch \<noteq> None")
    case False
    then have s: "significant (ch # raw) = significant raw" by (simp add: significant_def)
    from False have "ch \<noteq> BASE64_PAD" "table_a2b_base64 ch = None" by auto
    from a2b_loop_skip [OF this] Cons [of q l p out] show ?thesis unfolding s by simp
  next
    case True
    then have s: "significant (ch # raw) = ch # significant raw" by (simp add: significant_def)
    show ?thesis unfolding s using Cons by (simp split: option.splits)
  qed
qed


lemma data_chars_Nil: "data_chars [] = []"
  by (simp add: data_chars_def)

lemma data_chars_pad: "data_chars (BASE64_PAD # s) = data_chars s"
  by (simp add: data_chars_def table_pad)

lemma data_chars_data: "table_a2b_base64 c = Some v \<Longrightarrow> data_chars (c # s) = c # data_chars s"
  by (simp add: data_chars_def)

lemma ex_less_Suc_shift: "(\<exists>k<Suc n. P k) \<longleftrightarrow> P 0 \<or> (\<exists>k<n. P (Suc k))"
  by (auto simp: less_Suc_eq_0_disj)

lemma completes_Cons:
  "completes_from q p (c # s) \<longleftrightarrow>
     (c = BASE64_PAD \<and> (q mod 4 = 3 \<or> q mod 4 = 2 \<and> 1 \<le> p)) \<or>
     (\<exists>k<length s. s ! k = BASE64_PAD \<and>
        ((q + length (data_chars (c # take k s))) mod 4 = 3 \<or>
         (q + length (data_chars (c # take k s))) mod 4 = 2 \<and> (c # s) ! k = BASE64_PAD))"
proof -
  have "completes_from q p (c # s) \<longleftrightarrow>
     (\<exists>k<Suc (length s). (c # s) ! k = BASE64_PAD \<and>
        ((q + length (data_chars (take k (c # s)))) mod 4 = 3 \<or>
         (q + length (data_chars (take k (c # s)))) mod 4 = 2 \<and>
           (if k = 0 then 1 \<le> p else (c # s) ! (k - 1) = BASE64_PAD)))"
    by (simp add: completes_from_def)
  then show ?thesis
    unfolding ex_less_Suc_shift by (simp add: data_chars_Nil)
qed

lemma completes_pad_now:
  assumes "2 \<le> q \<and> 4 \<le> q + (p + 1)" "q < 4"
  shows "completes_from q p (BASE64_PAD # s)"
proof -
  from assms have "q = 3 \<or> (q = 2 \<and> 1 \<le> p)" by auto
  then show ?thesis unfolding completes_Cons by auto
qed

lemma completes_pad:
  assumes "\<not> (2 \<le> q \<and> 4 \<le> q + (p + 1))" "q < 4"
  shows "completes_from q p (BASE64_PAD # s) = completes_from q (if 2 \<le> q then p + 1 else p) s"
proof -
  from assms have q: "q = 0 \<or> q = 1 \<or> (q = 2 \<and> p = 0)" by auto
  have 0: "\<not> (q mod 4 = 3 \<or> q mod 4 = 2 \<and> 1 \<le> p)" using q by auto
  have k: "((q + length (data_chars (BASE64_PAD # take k s))) mod 4 = 3 \<or>
         (q + length (data_chars (BASE64_PAD # take k s))) mod 4 = 2 \<and>
           (BASE64_PAD # s) ! k = BASE64_PAD)
      = ((q + length (data_chars (take k s))) mod 4 = 3 \<or>
         (q + length (data_chars (take k s))) mod 4 = 2 \<and>
           (if k = 0 then 1 \<le> (if 2 \<le> q then p + 1 else p) else s ! (k - 1) = BASE64_PAD))" for k
  proof (cases k)
    case 0
    then show ?thesis using q by (auto simp: data_chars_pad data_chars_Nil)
  next
    case (Suc j)
    then show ?thesis by (simp add: data_chars_pad)
  qed
  show ?thesis
    unfolding completes_Cons completes_from_def [of q "if 2 \<le> q then p + 1 else p" s] k
    using 0 by (simp only: simp_thms)
qed

lemma completes_data:
  assumes "table_a2b_base64 c = Some v"
  shows "completes_from q p (c # s) = completes_from ((q + 1) mod 4) 0 s"
proof -
  from assms have np: "c \<noteq> BASE64_PAD" using table_pad by auto
  have k: "((q + length (data_chars (c # take k s))) mod 4 = 3 \<or>
         (q + length (data_chars (c # take k s))) mod 4 = 2 \<and> (c # s) ! k = BASE64_PAD)
      = ((((q + 1) mod 4 + length (data_chars (take k s))) mod 4 = 3 \<or>
         ((q + 1) mod 4 + length (data_chars (take k s))) mod 4 = 2 \<and>
           (if k = 0 then (1::nat) \<le> 0 else s ! (k - 1) = BASE64_PAD)))" for k
  proof (cases k)
    case 0
    then show ?thesis using np by (simp add: data_chars_data [OF assms] data_chars_Nil mod_simps)
  next
    case (Suc j)
    then show ?thesis by (simp add: data_chars_data [OF assms] mod_simps)
  qed
  show ?thesis
    unfolding completes_Cons completes_from_def [of "(q + 1) mod 4" 0 s] k
    using np by simp
qed

lemma a2b_loop_fails:
  assumes "\<forall>b \<in> set s. b = BASE64_PAD \<or> table_a2b_base64 b \<noteq> None" "q < 4"
  shows "a2b_loop q l p s out = None \<longleftrightarrow>
           \<not> completes_from q p s \<and> (q + length (data_chars s)) mod 4 \<noteq> 0"
  using assms
proof (induction s arbitrary: q l p out)
  case Nil
  then show ?case by (simp add: completes_from_def data_chars_def)
next
  case (Cons c s)
  from Cons.prems(1) have rest: "\<forall>b \<in> set s. b = BASE64_PAD \<or> table_a2b_base64 b \<noteq> None"
    by simp
  show ?case
  proof (cases "c = BASE64_PAD")
    case True
    show ?thesis
    proof (cases "2 \<le> q \<and> 4 \<le> q + (p + 1)")
      case now: True
      from completes_pad_now [OF now Cons.prems(2)] now show ?thesis
        unfolding True a2b_loop_pad by simp
    next
      case later: False
      have st: "a2b_loop q l p (BASE64_PAD # s) out =
          a2b_loop q l (if 2 \<le> q then p + 1 else p) s out"
        using later by (simp only: a2b_loop_pad if_False)
      from Cons.IH [OF rest Cons.prems(2), of l "if 2 \<le> q then p + 1 else p" out]
      show ?thesis
        unfolding True st completes_pad [OF later Cons.prems(2)] data_chars_pad .
    qed
  next
    case False
    with Cons.prems(1) obtain v where v: "table_a2b_base64 c = Some v" by auto
    from a2b_loop_data [OF v Cons.prems(2), of l p s out] obtain l' out' where
      st: "a2b_loop q l p (c # s) out = a2b_loop ((q + 1) mod 4) l' 0 s out'" by blast
    have q': "(q + 1) mod 4 < 4" by simp
    have m: "(q + Suc n) mod 4 = ((q + 1) mod 4 + n) mod 4" for n
      by (simp add: mod_add_left_eq)
    from Cons.IH [OF rest q', of l' 0 out'] completes_data [OF v, of q p s]
    show ?thesis unfolding st by (simp add: data_chars_data [OF v] mod_simps)
  qed
qed

lemma significant_only:
  "\<forall>b \<in> set (significant raw). b = BASE64_PAD \<or> table_a2b_base64 b \<noteq> None"
  by (simp add: significant_def)

lemma data_chars_significant: "data_chars (significant raw) = data_chars raw"
  by (induction raw) (auto simp: data_chars_def significant_def table_pad)

lemma pad_complete_from: "pad_complete raw = completes_from 0 0 (significant raw)"
proof -
  have "(if k = 0 then (1::nat) \<le> 0 else P) = (0 < k \<and> P)" for k :: nat and P
    by simp
  then show ?thesis
    by (simp add: pad_complete_def completes_from_def Let_def list_ex_iff Bex_def)
qed

lemma a2b_base64_fails: "a2b_base64 raw = None \<longleftrightarrow> base64_fails raw"
proof -
  have "a2b_base64 raw = a2b_loop 0 0 0 (significant raw) []"
    unfolding a2b_base64_def by (rule a2b_loop_significant)
  then show ?thesis
    using a2b_loop_fails [OF significant_only [of raw], of 0 0 0 "[]"]
    by (simp add: base64_fails_def pad_complete_from data_chars_significant)
qed

section \<open>Facts about the table serializer\<close>

lemma decimal_not_special:
  "py_isdecimal c \<Longrightarrow> c \<noteq> CHR ''.'' \<and> c \<noteq> CHR ''-'' \<and> py_isdigit c"
  by (auto simp: py_isdecimal_def py_isdigit_def Let_def)

lemma point_split:
  assumes "CHR ''.'' \<in> set u"
  shows "u = takeWhile not_point u @ CHR ''.'' # drop 1 (dropWhile not_point u)"
    and "remove1 CHR ''.'' u = takeWhile not_point u @ drop 1 (dropWhile not_point u)"
proof -
  have ne: "dropWhile not_point u \<noteq> []"
    using assms by (auto simp: dropWhile_eq_Nil_conv not_point_def)
  then have hd: "hd (dropWhile not_point u) = CHR ''.''"
    using hd_dropWhile [of not_point u] by (simp add: not_point_def)
  from ne hd have d: "dropWhile not_point u = CHR ''.'' # drop 1 (dropWhile not_point u)"
    by (cases "dropWhile not_point u") simp_all
  show 1: "u = takeWhile not_point u @ CHR ''.'' # drop 1 (dropWhile not_point u)"
    using takeWhile_dropWhile_id [of not_point u] d by metis
  have "CHR ''.'' \<notin> set (takeWhile not_point u)"
    using set_takeWhileD [of "CHR ''.''" not_point u] by (auto simp: not_point_def)
  then have "remove1 CHR ''.'' (takeWhile not_point u @ CHR ''.'' # drop 1 (dropWhile not_point u))
      = takeWhile not_point u @ drop 1 (dropWhile not_point u)"
    by (simp add: remove1_append)
  with 1 show "remove1 CHR ''.'' u = takeWhile not_point u @ drop 1 (dropWhile not_point u)"
    by metis
qed

lemma point_in_unsigned: "CHR ''.'' \<in> set v \<longleftrightarrow> CHR ''.'' \<in> set (unsigned_part v)"
  by (cases v) (auto simp: unsigned_part_def)

lemma py_float_iff:
  assumes "CHR ''.'' \<in> set v"
  shows "py_float v \<noteq> None \<longleftrightarrow> all_digits (remove1 CHR ''.'' (unsigned_part v))"
proof -
  have p: "CHR ''.'' \<in> set (unsigned_part v)" using assms point_in_unsigned by simp
  show ?thesis
    unfolding point_split(2) [OF p]
    by (auto simp: py_float_def all_digits_def Let_def)
qed

lemma py_float_value: "py_float v = Some q \<Longrightarrow> q = float_of_text v"
  by (auto simp: py_float_def Let_def split: if_splits)

lemma py_int_value: "py_int v = Some i \<Longrightarrow> i = int_of_text v"
  by (auto simp: py_int_def split: if_splits)

lemma float_guard:
  assumes "CHR ''.'' \<in> set v" "all_digits (remove1 CHR ''.'' (unsigned_part v))"
  shows "isdigit (filter (\<lambda>c. c \<noteq> CHR ''-'') (filter (\<lambda>c. c \<noteq> CHR ''.'') v))"
proof -
  define u where "u = unsigned_part v"
  define ip where "ip = takeWhile not_point u"
  define fp where "fp = drop 1 (dropWhile not_point u)"
  have p: "CHR ''.'' \<in> set u" using assms(1) point_in_unsigned by (simp add: u_def)
  have u: "u = ip @ CHR ''.'' # fp" and r: "remove1 CHR ''.'' u = ip @ fp"
    using point_split [OF p] by (simp_all add: ip_def fp_def)
  have dec: "list_all py_isdecimal (ip @ fp)" "ip @ fp \<noteq> []"
    using assms(2) r by (simp_all add: all_digits_def u_def)
  have keep: "filter (\<lambda>c. c \<noteq> CHR ''-'') (filter (\<lambda>c. c \<noteq> CHR ''.'') (ip @ fp)) = ip @ fp"
    using dec(1) decimal_not_special by (auto simp: list_all_iff filter_id_conv)
  have fu: "filter (\<lambda>c. c \<noteq> CHR ''-'') (filter (\<lambda>c. c \<noteq> CHR ''.'') u) = ip @ fp"
    using keep by (subst u) simp
  have "filter (\<lambda>c. c \<noteq> CHR ''-'') (filter (\<lambda>c. c \<noteq> CHR ''.'') v) = ip @ fp"
    using fu by (cases v) (auto simp: u_def unsigned_part_def split: if_splits)
  moreover have "list_all py_isdigit (ip @ fp)"
    using dec(1) decimal_not_special by (auto simp: list_all_iff)
  ultimately show ?thesis using dec(2) by (simp add: isdigit_def)
qed

lemma all_digits_no_point: "all_digits s \<Longrightarrow> CHR ''.'' \<notin> set s \<and> \<not> is_negative s \<and> unsigned_part s = s"
  using decimal_not_special
  by (cases s) (auto simp: all_digits_def list_all_iff is_negative_def unsigned_part_def)

lemma int_guard_iff:
  "(isdigit v \<or> (take 1 v = ''-'' \<and> isdigit (drop 1 v))) \<and> py_int v \<noteq> None
     \<longleftrightarrow> (all_digits v \<or> (is_negative v \<and> all_digits (unsigned_part v))) \<and>
         length (unsigned_part v) \<le> int_max_str_digits"
proof (cases v)
  case Nil
  then show ?thesis by (simp add: isdigit_def all_digits_def py_int_def unsigned_part_def is_negative_def)
next
  case (Cons c r)
  show ?thesis
  proof (cases "c = CHR ''-''")
    case True
    have "\<not> py_isdigit CHR ''-''" "\<not> py_isdecimal CHR ''-''"
      by (simp_all add: py_isdigit_def py_isdecimal_def Let_def)
    then show ?thesis using Cons True decimal_not_special
      by (auto simp: isdigit_def all_digits_def py_int_def unsigned_part_def is_negative_def list_all_iff)
  next
    case False
    then show ?thesis using Cons decimal_not_special
      by (auto simp: isdigit_def all_digits_def py_int_def unsigned_part_def is_negative_def list_all_iff)
  qed
qed

lemma all_digits_unsigned:
  "all_digits (unsigned_part v) \<longleftrightarrow> all_digits v \<or> (is_negative v \<and> all_digits (unsigned_part v))"
proof (cases v)
  case Nil
  then show ?thesis by (simp add: all_digits_def unsigned_part_def is_negative_def)
next
  case (Cons c r)
  have "\<not> py_isdecimal CHR ''-''" by (simp add: py_isdecimal_def Let_def)
  with Cons show ?thesis
    by (cases "c = CHR ''-''") (auto simp: unsigned_part_def is_negative_def all_digits_def)
qed

text \<open>
  The cell that the \<open>try\<close> block stores: the rule of the specification, except
  that an integer text with more digits than \<open>int\<close> accepts stays a text.
\<close>

lemma convert_value_limited:
  "convert_value v =
     (if all_digits (unsigned_part v) \<and> int_max_str_digits < length (unsigned_part v)
      then Text v else type_inference v)"
proof (cases "CHR ''.'' \<in> set v \<and> all_digits (remove1 CHR ''.'' (unsigned_part v))")
  case True
  then have g: "isdigit (filter (\<lambda>c. c \<noteq> CHR ''-'') (filter (\<lambda>c. c \<noteq> CHR ''.'') v))"
    using float_guard by blast
  from True have "py_float v \<noteq> None" using py_float_iff by blast
  then obtain q where q: "py_float v = Some q" by auto
  with py_float_value have qv: "q = float_of_text v" by blast
  from True have "CHR ''.'' \<in> set (unsigned_part v)" using point_in_unsigned by blast
  then have "\<not> all_digits (unsigned_part v)" using all_digits_no_point by blast
  with True g q qv show ?thesis by (simp add: convert_value_def type_inference_def)
next
  case False
  note nf = False
  show ?thesis
  proof (cases "CHR ''.'' \<in> set v")
    case True
    with nf have "py_float v = None" using py_float_iff by blast
    moreover have "\<not> all_digits v" "\<not> (is_negative v \<and> all_digits (unsigned_part v))"
      using True all_digits_no_point point_in_unsigned by blast+
    moreover have "\<not> (isdigit v \<or> (take 1 v = ''-'' \<and> isdigit (drop 1 v))) \<or> py_int v = None"
      using int_guard_iff [of v] calculation(2,3) by blast
    moreover have "\<not> all_digits (unsigned_part v)"
      using all_digits_unsigned [of v] calculation(2,3) by blast
    ultimately show ?thesis using nf
      by (auto simp: convert_value_def type_inference_def split: option.splits)
  next
    case False
    show ?thesis
    proof (cases "all_digits (unsigned_part v)")
      case True
      then have d: "all_digits v \<or> (is_negative v \<and> all_digits (unsigned_part v))"
        using all_digits_unsigned [of v] by blast
      show ?thesis
      proof (cases "length (unsigned_part v) \<le> int_max_str_digits")
        case le: True
        with d have "(isdigit v \<or> (take 1 v = ''-'' \<and> isdigit (drop 1 v)))" "py_int v \<noteq> None"
          using int_guard_iff [of v] by blast+
        then obtain i where i: "py_int v = Some i" by auto
        with py_int_value have "i = int_of_text v" by blast
        with d le False i \<open>isdigit v \<or> (take 1 v = ''-'' \<and> isdigit (drop 1 v))\<close>
        show ?thesis by (simp add: convert_value_def type_inference_def)
      next
        case gt: False
        then have "\<not> (isdigit v \<or> (take 1 v = ''-'' \<and> isdigit (drop 1 v))) \<or> py_int v = None"
          using int_guard_iff [of v] by blast
        with gt True False show ?thesis
          by (auto simp: convert_value_def split: option.splits)
      qed
    next
      case nd: False
      then have nd': "\<not> (all_digits v \<or> (is_negative v \<and> all_digits (unsigned_part v)))"
        using all_digits_unsigned [of v] by blast
      then have "\<not> (isdigit v \<or> (take 1 v = ''-'' \<and> isdigit (drop 1 v))) \<or> py_int v = None"
        using int_guard_iff [of v] by blast
      with nd nd' False show ?thesis
        by (auto simp: convert_value_def type_inference_def split: option.splits)
    qed
  qed
qed

lemmas convert_defs =
  convert_value_def isdigit_def py_isdigit_def py_isdecimal_def py_float_def py_int_def
  float_of_text_def int_of_text_def unsigned_part_def is_negative_def not_point_def
  decimal_value_def digit_value_def int_max_str_digits_def Let_def

lemma pad_parts_eq: "pad_parts parts n = parts @ replicate (n - length parts) ''''"
proof (induction parts n rule: pad_parts.induct)
  case (1 parts n)
  show ?case
  proof (cases "length parts < n")
    case True
    then have "n - length parts = Suc (n - Suc (length parts))" by simp
    with True "1.IH" show ?thesis
      by (subst pad_parts.simps) (simp add: replicate_app_Cons_same)
  next
    case False
    then show ?thesis by (subst pad_parts.simps) simp
  qed
qed

lemma build_row_keys:
  "fst ` set (build_row hs parts i row) = fst ` set row \<union> set hs"
  by (induction hs arbitrary: i row) (auto simp: dom_update)

lemma build_row_lookup:
  assumes "k \<in> set hs \<or> map_of row k = Some (convert_value t)"
    and "\<forall>j < length hs. hs ! j = k \<longrightarrow> part_at parts (i + j) = t"
  shows "map_of (build_row hs parts i row) k = Some (convert_value t)"
  using assms
proof (induction hs arbitrary: i row)
  case Nil
  then show ?case by simp
next
  case (Cons h hs)
  define row' where "row' = AList.update h (convert_value (part_at parts i)) row"
  have 1: "k \<in> set hs \<or> map_of row' k = Some (convert_value t)"
  proof (cases "k = h")
    case True
    from Cons.prems(2) [rule_format, of 0] True
    have "part_at parts i = t" by simp
    then show ?thesis by (simp add: row'_def True update_conv')
  next
    case False
    with Cons.prems(1) show ?thesis by (auto simp: row'_def update_conv')
  qed
  have 2: "\<forall>j < length hs. hs ! j = k \<longrightarrow> part_at parts ((i + 1) + j) = t"
  proof (intro allI impI)
    fix j assume "j < length hs" "hs ! j = k"
    with Cons.prems(2) [rule_format, of "Suc j"] show "part_at parts ((i + 1) + j) = t" by simp
  qed
  from Cons.IH [OF 1 2] show ?case by (simp add: row'_def)
qed

lemma update_new_key: "k \<notin> fst ` set al \<Longrightarrow> AList.update k v al = al @ [(k, v)]"
  by (induction al) auto

lemma build_row_distinct:
  assumes "distinct hs" "set hs \<inter> fst ` set row = {}" "i + length hs \<le> length parts"
  shows "build_row hs parts i row = row @ zip hs (map convert_value (drop i parts))"
  using assms
proof (induction hs arbitrary: i row)
  case Nil
  then show ?case by simp
next
  case (Cons h hs)
  have pa: "part_at parts i = parts ! i" using Cons.prems(3) by (simp add: part_at_def)
  have u: "AList.update h (convert_value (parts ! i)) row = row @ [(h, convert_value (parts ! i))]"
    using Cons.prems(2) by (intro update_new_key) auto
  have d: "drop i parts = parts ! i # drop (Suc i) parts"
    using Cons.prems(3) by (simp add: Cons_nth_drop_Suc)
  have "build_row hs parts (i + 1) (row @ [(h, convert_value (parts ! i))]) =
      (row @ [(h, convert_value (parts ! i))]) @ zip hs (map convert_value (drop (i + 1) parts))"
    using Cons.prems by (intro Cons.IH) auto
  then show ?case using Cons.prems(3) u d pa by simp
qed

lemma parse_line_ok:
  assumes "state_ok st"
  shows "\<exists>st'. parse_line st raw = Inr st' \<and> state_ok st'"
proof (cases "current_table st")
  case None
  with assms show ?thesis
    by (auto simp: parse_line_def state_ok_def Let_def update_conv')
next
  case (Some ct)
  with assms obtain rows where "map_of (tables st) ct = Some rows"
    by (auto simp: state_ok_def)
  with Some assms show ?thesis
    by (auto simp: parse_line_def state_ok_def Let_def update_conv')
qed

lemma parse_lines_ok:
  "state_ok st \<Longrightarrow> \<exists>st'. parse_lines st ls = Inr st' \<and> state_ok st'"
proof (induction ls arbitrary: st)
  case Nil
  then show ?case by simp
next
  case (Cons l ls)
  from parse_line_ok [OF Cons.prems, of l] obtain st1 where
    "parse_line st l = Inr st1" "state_ok st1" by blast
  with Cons.IH [of st1] show ?case by simp
qed

lemma initial_state_ok: "state_ok initial_state"
  by (simp add: state_ok_def initial_state_def)

lemma foldl_append_concat:
  "foldl (\<lambda>text x. text @ f x) init xs = init @ concat (map f xs)"
  by (induction xs arbitrary: init) simp_all

lemma split_on_not_Nil: "split_on sep s \<noteq> []"
  by (induction s) auto

lemma split_on_no_sep: "sep \<notin> set s \<Longrightarrow> split_on sep s = [s]"
  by (induction s) auto

lemma split_on_append:
  "sep \<notin> set x \<Longrightarrow> split_on sep (x @ sep # s) = x # split_on sep s"
  by (induction x) (auto simp: split_on_not_Nil)

lemma split_on_join:
  "\<forall>x \<in> set xs. sep \<notin> set x \<Longrightarrow> xs \<noteq> [] \<Longrightarrow> split_on sep (join [sep] xs) = xs"
proof (induction xs)
  case Nil
  then show ?case by simp
next
  case (Cons x xs)
  show ?case
  proof (cases xs)
    case Nil
    with Cons.prems show ?thesis by (simp add: split_on_no_sep)
  next
    case (Cons y ys)
    with Cons.prems Cons.IH have "split_on sep (join [sep] xs) = xs" by simp
    with Cons Cons.prems show ?thesis
      using split_on_append [of sep x "join [sep] (y # ys)"] by simp
  qed
qed

lemma split_on_parts_no_sep: "\<forall>x \<in> set (split_on sep s). sep \<notin> set x"
proof (induction s)
  case Nil
  show ?case by simp
next
  case (Cons c s)
  have ne: "split_on sep s \<noteq> []" by (rule split_on_not_Nil)
  then have hd: "hd (split_on sep s) \<in> set (split_on sep s)" by simp
  have tl: "set (tl (split_on sep s)) \<subseteq> set (split_on sep s)" using ne by (simp add: list.set_sel(2) subsetI)
  show ?case using Cons hd tl by auto
qed

lemma build_row_last:
  assumes "j < length hs" "hs ! j = k" "part_at parts (i + j) = t"
    and "\<forall>j'. j < j' \<and> j' < length hs \<and> hs ! j' = k \<longrightarrow> part_at parts (i + j') = t"
  shows "map_of (build_row hs parts i row) k = Some (convert_value t)"
  using assms
proof (induction hs arbitrary: i j row)
  case Nil
  then show ?case by simp
next
  case (Cons h hs)
  show ?case
  proof (cases j)
    case 0
    with Cons.prems have kh: "k = h" and t: "part_at parts i = t" by simp_all
    have "map_of (build_row hs parts (i + 1) (AList.update h (convert_value (part_at parts i)) row)) k
        = Some (convert_value t)"
    proof (rule build_row_lookup)
      show "k \<in> set hs \<or>
          map_of (AList.update h (convert_value (part_at parts i)) row) k = Some (convert_value t)"
        by (simp add: kh t update_conv')
      show "\<forall>j'<length hs. hs ! j' = k \<longrightarrow> part_at parts (i + 1 + j') = t"
      proof (intro allI impI)
        fix j' assume "j' < length hs" "hs ! j' = k"
        with Cons.prems(4) [rule_format, of "Suc j'"] 0 show "part_at parts (i + 1 + j') = t"
          by simp
      qed
    qed
    then show ?thesis by simp
  next
    case (Suc j0)
    have "map_of (build_row hs parts (i + 1) (AList.update h (convert_value (part_at parts i)) row)) k
        = Some (convert_value t)"
    proof (rule Cons.IH [of j0])
      show "j0 < length hs" using Cons.prems(1) Suc by simp
      show "hs ! j0 = k" using Cons.prems(2) Suc by simp
      show "part_at parts (i + 1 + j0) = t" using Cons.prems(3) Suc by simp
      show "\<forall>j'. j0 < j' \<and> j' < length hs \<and> hs ! j' = k \<longrightarrow> part_at parts (i + 1 + j') = t"
      proof (intro allI impI)
        fix j' assume "j0 < j' \<and> j' < length hs \<and> hs ! j' = k"
        with Cons.prems(4) [rule_format, of "Suc j'"] Suc show "part_at parts (i + 1 + j') = t"
          by simp
      qed
    qed
    then show ?thesis by simp
  qed
qed

lemma convert_value_empty: "convert_value '''' = Text ''''"
  by (simp add: convert_value_def isdigit_def)

lemma captured_headers_line:
  assumes inv: "\<forall>n hs. map_of (table_headers st) n = Some hs \<longrightarrow>
      1 < length hs \<and> (\<forall>h \<in> set hs. TAB \<notin> set h)"
    and step: "parse_line st raw = Inr st'"
  shows "\<forall>n hs. map_of (table_headers st') n = Some hs \<longrightarrow>
      1 < length hs \<and> (\<forall>h \<in> set hs. TAB \<notin> set h)"
proof -
  have "table_headers st' = table_headers st \<or>
      (\<exists>ct. table_headers st' = AList.update ct (split_on TAB (strip raw)) (table_headers st)
          \<and> 1 < length (split_on TAB (strip raw)))"
    using step by (auto simp: parse_line_def Let_def split: if_splits option.splits)
  then show ?thesis
  proof
    assume "table_headers st' = table_headers st"
    with inv show ?thesis by simp
  next
    assume "\<exists>ct. table_headers st' = AList.update ct (split_on TAB (strip raw)) (table_headers st)
          \<and> 1 < length (split_on TAB (strip raw))"
    then obtain ct where e: "table_headers st' = AList.update ct (split_on TAB (strip raw)) (table_headers st)"
      and l: "1 < length (split_on TAB (strip raw))" by blast
    show ?thesis
      using inv l split_on_parts_no_sep [of TAB "strip raw"]
      by (auto simp: e update_conv' split: if_splits)
  qed
qed

lemma captured_headers_lines:
  assumes "\<forall>n hs. map_of (table_headers st) n = Some hs \<longrightarrow>
      1 < length hs \<and> (\<forall>h \<in> set hs. TAB \<notin> set h)"
    and "parse_lines st ls = Inr st'"
  shows "\<forall>n hs. map_of (table_headers st') n = Some hs \<longrightarrow>
      1 < length hs \<and> (\<forall>h \<in> set hs. TAB \<notin> set h)"
  using assms
proof (induction ls arbitrary: st)
  case Nil
  then show ?case by simp
next
  case (Cons l ls)
  from Cons.prems(2) obtain st1 where 1: "parse_line st l = Inr st1"
    and 2: "parse_lines st1 ls = Inr st'"
    by (auto split: sum.splits)
  from Cons.IH [OF captured_headers_line [OF Cons.prems(1) 1] 2] show ?case .
qed

lemma captured_headers:
  assumes "parse_save_data d = Inr (tbls, captured)" "map_of captured name = Some hs"
  shows "1 < length hs \<and> (\<forall>h \<in> set hs. TAB \<notin> set h)"
proof -
  from assms(1) obtain st where st: "parse_lines initial_state (split_on NL d) = Inr st"
    and c: "captured = table_headers st"
    by (auto simp: parse_save_data_def split: sum.splits)
  have "\<forall>n hs. map_of (table_headers initial_state) n = Some hs \<longrightarrow>
      1 < length hs \<and> (\<forall>h \<in> set hs. TAB \<notin> set h)"
    by (simp add: initial_state_def)
  from captured_headers_lines [OF this st] assms(2) c show ?thesis by blast
qed

lemma parse_lines_append:
  "parse_lines st xs = Inr st' \<Longrightarrow> parse_lines st (xs @ ys) = parse_lines st' ys"
  by (induction xs arbitrary: st) (auto split: sum.splits)

lemmas line_defs =
  parse_line_def strip_def lstrip_def rstrip_def py_isspace_def TAB_def NL_def Let_def
  pad_parts_eq

section \<open>Formatting and parsing again\<close>

subsection \<open>The text of an integer\<close>

lemma decimal_value_snoc: "decimal_value (s @ [c]) = 10 * decimal_value s + digit_value c"
  by (simp add: decimal_value_def)






lemma str_int_printable: "int_printable i \<Longrightarrow> str_int i = Inr (int_text i)"
  by (simp add: str_int_def int_printable_def)

lemma str_int_Inr: "str_int i = Inr s \<longleftrightarrow> int_printable i \<and> s = int_text i"
  by (auto simp: str_int_def int_printable_def)


lemma small_int_printable:
  assumes "\<bar>i\<bar> < 10"
  shows "int_printable i"
proof -
  from assms have "nat \<bar>i\<bar> < 10" by simp
  then have "digits_of_nat (nat \<bar>i\<bar>) = [char_of (48 + nat \<bar>i\<bar>)]"
    by (subst digits_of_nat.simps) simp
  then show ?thesis by (simp add: int_printable_def int_max_str_digits_def)
qed



subsection \<open>A line of fields\<close>












subsection \<open>The text that is written\<close>

lemma collect_Inr:
  "\<forall>x \<in> set xs. f x = Inr (g x) \<Longrightarrow> collect (map f xs) = Inr (map g xs)"
  by (induction xs) simp_all

lemma py_str_printable: "cell_printable v \<Longrightarrow> py_str float_repr v = Inr (cell_text float_repr v)"
  by (cases v) (simp_all add: str_int_printable)

lemma py_str_Inr: "py_str float_repr v = Inr s \<Longrightarrow> cell_printable v \<and> s = cell_text float_repr v"
  by (cases v) (auto simp: str_int_Inr)

lemma field_printable:
  assumes "row_printable row"
  shows "(case map_of row col of None \<Rightarrow> Inr [] | Some v \<Rightarrow> py_str float_repr v)
           = Inr (field_text float_repr row col)"
proof (cases "map_of row col")
  case None
  then show ?thesis by (simp add: field_text_def)
next
  case (Some v)
  then have "(col, v) \<in> set row" by (rule map_of_SomeD)
  with assms have "cell_printable v" by (auto simp: row_printable_def list_all_iff)
  with Some show ?thesis by (simp add: field_text_def py_str_printable)
qed

lemma row_text_printable:
  assumes "row_printable row"
  shows "row_text float_repr hs row = Inr (row_line float_repr hs row)"
proof -
  have "collect (map (\<lambda>col. case map_of row col of None \<Rightarrow> Inr [] | Some v \<Rightarrow> py_str float_repr v) hs)
      = Inr (map (field_text float_repr row) hs)"
    by (rule collect_Inr) (simp add: field_printable [OF assms])
  then show ?thesis by (simp add: row_text_def row_line_def)
qed

lemma unlines_append: "unlines (xs @ ys) = unlines xs @ unlines ys"
  by (simp add: unlines_def)

lemma unlines_Nil: "unlines [] = []"
  by (simp add: unlines_def)

lemma unlines_Cons: "unlines (x # xs) = x @ [NL] @ unlines xs"
  by (simp add: unlines_def)

lemma rows_text_printable:
  "list_all row_printable rows \<Longrightarrow>
     rows_text float_repr hs text_data rows
       = Inr (text_data @ unlines (map (row_line float_repr hs) rows))"
proof (induction rows arbitrary: text_data)
  case Nil
  show ?case by (simp add: unlines_def)
next
  case (Cons r rows)
  then show ?case by (simp add: row_text_printable unlines_Cons)
qed

lemma table_text_printable:
  assumes "list_all row_printable (snd t)"
  shows "table_text float_repr captured text_data t
           = Inr (text_data @ table_block float_repr captured t)"
proof -
  obtain name rows where t: "t = (name, rows)" by (cases t)
  show ?thesis
  proof (cases "rows = []")
    case True
    then show ?thesis
      by (simp add: t table_text_def table_block_def table_lines_def unlines_def)
  next
    case False
    with assms show ?thesis
      by (simp add: t table_text_def table_block_def table_lines_def headers_for_def
          rows_text_printable unlines_Cons unlines_append unlines_Nil Let_def
          split: option.splits)
  qed
qed

lemma tables_text_printable:
  "printable tbls \<Longrightarrow>
     tables_text float_repr captured text_data tbls
       = Inr (text_data @ concat (map (table_block float_repr captured) tbls))"
proof (induction tbls arbitrary: text_data)
  case Nil
  show ?case by simp
next
  case (Cons t tbls)
  then show ?case by (simp add: printable_def table_text_printable)
qed

lemma save_text_printable:
  "printable tbls \<Longrightarrow>
     save_as_yls_text float_repr tbls captured
       = Inr (concat (map (table_block float_repr captured) tbls))"
  by (simp add: save_as_yls_text_def tables_text_printable)

subsection \<open>Reading the lines back\<close>

































subsection \<open>The text when save\_as\_yls returns\<close>

lemma collect_Inr_D:
  "collect (map f xs) = Inr vs \<Longrightarrow> map f xs = map Inr vs"
proof (induction xs arbitrary: vs)
  case Nil
  then show ?case by simp
next
  case (Cons x xs)
  then show ?case by (auto split: sum.splits)
qed

lemma field_Inr:
  assumes "(case map_of row col of None \<Rightarrow> Inr [] | Some v \<Rightarrow> py_str float_repr v) = Inr s"
  shows "s = field_text float_repr row col"
proof (cases "map_of row col")
  case None
  with assms show ?thesis by (simp add: field_text_def)
next
  case (Some v)
  with assms py_str_Inr [of float_repr v s] show ?thesis by (simp add: field_text_def)
qed

lemma row_text_Inr:
  assumes "row_text float_repr hs row = Inr l"
  shows "l = row_line float_repr hs row"
proof -
  from assms obtain vs where c: "collect (map (\<lambda>col. case map_of row col of
      None \<Rightarrow> Inr [] | Some v \<Rightarrow> py_str float_repr v) hs) = Inr vs" and l: "l = join [TAB] vs"
    by (auto simp: row_text_def split: sum.splits)
  from collect_Inr_D [OF c] have m: "map (\<lambda>col. case map_of row col of
      None \<Rightarrow> Inr [] | Some v \<Rightarrow> py_str float_repr v) hs = map Inr vs" .
  have "vs = map (field_text float_repr row) hs"
  proof (rule nth_equalityI)
    from m have "length (map (\<lambda>col. case map_of row col of
      None \<Rightarrow> Inr [] | Some v \<Rightarrow> py_str float_repr v) hs) = length (map Inr vs :: (error + string) list)"
      by simp
    then show len: "length vs = length (map (field_text float_repr row) hs)" by simp
    fix i assume "i < length vs"
    with len have i: "i < length hs" by simp
    from m have "map (\<lambda>col. case map_of row col of
      None \<Rightarrow> Inr [] | Some v \<Rightarrow> py_str float_repr v) hs ! i = (map Inr vs :: (error + string) list) ! i"
      by simp
    with i \<open>i < length vs\<close>
    have "(case map_of row (hs ! i) of None \<Rightarrow> Inr [] | Some v \<Rightarrow> py_str float_repr v) = Inr (vs ! i)"
      by simp
    from field_Inr [OF this] i show "vs ! i = map (field_text float_repr row) hs ! i" by simp
  qed
  with l show ?thesis by (simp add: row_line_def)
qed

lemma rows_text_Inr:
  "rows_text float_repr hs text_data rows = Inr t \<Longrightarrow>
     t = text_data @ unlines (map (row_line float_repr hs) rows)"
proof (induction rows arbitrary: text_data)
  case Nil
  then show ?case by (simp add: unlines_Nil)
next
  case (Cons r rows)
  from Cons.prems obtain l where l: "row_text float_repr hs r = Inr l"
    and r: "rows_text float_repr hs (text_data @ l @ [NL]) rows = Inr t"
    by (auto split: sum.splits)
  from Cons.IH [OF r] row_text_Inr [OF l] show ?case by (simp add: unlines_Cons)
qed

lemma table_text_Inr:
  assumes "table_text float_repr captured text_data t = Inr x"
  shows "x = text_data @ table_block float_repr captured t"
proof -
  obtain name rows where t: "t = (name, rows)" by (cases t)
  show ?thesis
  proof (cases "rows = []")
    case True
    with assms show ?thesis
      by (auto simp: t table_text_def table_block_def table_lines_def unlines_def)
  next
    case False
    with assms obtain y where
      y: "rows_text float_repr (headers_for captured t)
            (text_data @ ''###'' @ name @ [NL] @ join [TAB] (headers_for captured t) @ [NL]) rows = Inr y"
      and x: "x = y @ [NL]"
      by (auto simp: t table_text_def headers_for_def Let_def split: sum.splits option.splits)
    from rows_text_Inr [OF y] x False show ?thesis
      by (simp add: t table_block_def table_lines_def unlines_Cons unlines_append unlines_Nil)
  qed
qed

lemma table_text_init:
  "table_text float_repr captured text_data t =
     (case table_text float_repr captured [] t of Inl e \<Rightarrow> Inl e | Inr x \<Rightarrow> Inr (text_data @ x))"
proof -
  have r: "rows_text float_repr hs a rows =
      (case rows_text float_repr hs [] rows of Inl e \<Rightarrow> Inl e | Inr x \<Rightarrow> Inr (a @ x))" for hs a rows
  proof (induction rows arbitrary: a)
    case Nil
    show ?case by simp
  next
    case (Cons r rows)
    show ?case
    proof (cases "row_text float_repr hs r")
      case (Inl e)
      then show ?thesis by simp
    next
      case (Inr l)
      from Cons [of "a @ l @ [NL]"] Cons [of "l @ [NL]"] Inr show ?thesis
        by (simp split: sum.splits)
    qed
  qed
  obtain name rows where t: "t = (name, rows)" by (cases t)
  define hs where "hs = (case map_of captured name of None \<Rightarrow> map fst (hd rows) | Some hs \<Rightarrow> hs)"
  show ?thesis
  proof (cases "rows = []")
    case True
    then show ?thesis by (simp add: t table_text_def)
  next
    case False
    from r [of hs "text_data @ ''###'' @ name @ [NL] @ join [TAB] hs @ [NL]" rows]
      r [of hs "''###'' @ name @ [NL] @ join [TAB] hs @ [NL]" rows] False
    show ?thesis
      by (simp add: t table_text_def Let_def hs_def [symmetric] split: sum.splits)
  qed
qed

lemma tables_text_init:
  "tables_text float_repr captured text_data tbls =
     (case tables_text float_repr captured [] tbls of Inl e \<Rightarrow> Inl e | Inr x \<Rightarrow> Inr (text_data @ x))"
proof (induction tbls arbitrary: text_data)
  case Nil
  show ?case by simp
next
  case (Cons t tbls)
  show ?case
  proof (cases "table_text float_repr captured [] t")
    case (Inl e)
    with table_text_init [of float_repr captured text_data t] show ?thesis by simp
  next
    case (Inr x)
    with table_text_init [of float_repr captured text_data t]
    have 1: "table_text float_repr captured text_data t = Inr (text_data @ x)" by simp
    from Cons [of "text_data @ x"] Cons [of x] 1 Inr show ?thesis
      by (simp split: sum.splits)
  qed
qed

lemma tables_text_append:
  "tables_text float_repr captured text_data (xs @ ys) =
     (case tables_text float_repr captured text_data xs of
        Inl e \<Rightarrow> Inl e
      | Inr x \<Rightarrow> tables_text float_repr captured x ys)"
  by (induction xs arbitrary: text_data) (simp_all split: sum.splits)

lemma save_text_split:
  assumes "save_as_yls_text float_repr (pre @ t # post) captured = Inr x"
  shows "\<exists>before after.
           save_as_yls_text float_repr pre captured = Inr before \<and>
           save_as_yls_text float_repr post captured = Inr after \<and>
           x = before @ table_block float_repr captured t @ after"
proof -
  from assms obtain b where b: "tables_text float_repr captured [] pre = Inr b"
    and 1: "tables_text float_repr captured b (t # post) = Inr x"
    by (auto simp: save_as_yls_text_def tables_text_append split: sum.splits)
  from 1 obtain m where m: "table_text float_repr captured b t = Inr m"
    and 2: "tables_text float_repr captured m post = Inr x"
    by (auto split: sum.splits)
  from 2 tables_text_init [of float_repr captured m post]
  obtain a where a: "tables_text float_repr captured [] post = Inr a" and x: "x = m @ a"
    by (auto split: sum.splits)
  from table_text_Inr [OF m] have "m = b @ table_block float_repr captured t" .
  with a b x show ?thesis by (simp add: save_as_yls_text_def)
qed

subsection \<open>The integers that parsing stores\<close>

lemma decimal_value_bound: "list_all py_isdecimal s \<Longrightarrow> decimal_value s < 10 ^ length s"
proof (induction s rule: rev_induct)
  case Nil
  show ?case by (simp add: decimal_value_def)
next
  case (snoc c s)
  then have "py_isdecimal c" and s: "decimal_value s < 10 ^ length s" by simp_all
  from \<open>py_isdecimal c\<close> have "digit_value c \<le> 9"
    unfolding py_isdecimal_def digit_value_def Let_def by linarith
  with s have "10 * decimal_value s + digit_value c < 10 * 10 ^ length s" by simp
  then show ?case by (simp add: decimal_value_snoc)
qed

lemma digits_length: "n < 10 ^ k \<Longrightarrow> 0 < k \<Longrightarrow> length (digits_of_nat n) \<le> k"
proof (induction n arbitrary: k rule: digits_of_nat.induct)
  case (1 n)
  show ?case
  proof (cases "n < 10")
    case True
    with "1.prems" show ?thesis by (subst digits_of_nat.simps) simp
  next
    case False
    obtain j where k: "k = Suc j" using "1.prems"(2) by (cases k) auto
    have j: "0 < j"
    proof (rule ccontr)
      assume "\<not> 0 < j"
      with k "1.prems"(1) False show False by simp
    qed
    from "1.prems"(1) k have "n div 10 < 10 ^ j" by (simp add: less_mult_imp_div_less mult.commute)
    from "1.IH" [OF False this j] False k show ?thesis
      by (subst digits_of_nat.simps) simp
  qed
qed

lemma py_int_printable:
  assumes "py_int v = Some i"
  shows "int_printable i"
proof -
  define u where "u = unsigned_part v"
  from assms have ne: "u \<noteq> []" and d: "list_all py_isdecimal u"
    and l: "length u \<le> int_max_str_digits" and i: "i = int_of_text v"
    by (auto simp: py_int_def u_def split: if_splits)
  have "nat \<bar>i\<bar> = decimal_value u" unfolding i by (simp add: int_of_text_def u_def)
  moreover have "length (digits_of_nat (decimal_value u)) \<le> length u"
    using decimal_value_bound [OF d] ne by (intro digits_length) simp_all
  ultimately show ?thesis using l by (simp add: int_printable_def)
qed

lemma convert_value_printable: "cell_printable (convert_value v)"
  using py_int_printable [of v]
  by (auto simp: convert_value_def split: option.splits)

lemma update_list_all:
  "list_all P al \<Longrightarrow> P (k, v) \<Longrightarrow> list_all P (AList.update k v al)"
  by (induction al) auto

lemma build_row_printable:
  "row_printable row \<Longrightarrow> row_printable (build_row hs parts i row)"
proof (induction hs arbitrary: i row)
  case Nil
  then show ?case by simp
next
  case (Cons h hs)
  have "row_printable (AList.update h (convert_value (part_at parts i)) row)"
    using Cons.prems unfolding row_printable_def
    by (intro update_list_all) (simp_all add: convert_value_printable)
  from Cons.IH [OF this] show ?case by simp
qed

lemma parse_line_printable:
  assumes "printable (tables st)" "parse_line st raw = Inr st'"
  shows "printable (tables st')"
proof -
  have r: "row_printable (build_row hs parts 0 [])" for hs parts
    by (rule build_row_printable) (simp add: row_printable_def)
  define row where "row = build_row (current_headers st)
      (pad_parts (split_on TAB (strip raw)) (length (current_headers st))) 0 []"
  have rp: "row_printable row" unfolding row_def by (rule r)
  note pd = parse_line_def Let_def
  consider (same) "tables st' = tables st"
    | (marker) "tables st' = AList.update (drop 3 (strip raw)) [] (tables st)"
    | (data) ct rows where "map_of (tables st) ct = Some rows"
        "tables st' = AList.update ct (rows @ [row]) (tables st)"
  proof (cases "strip raw = []")
    case True
    with assms(2) have "st' = st" by (simp add: pd)
    then show ?thesis using same by simp
  next
    case ne: False
    show ?thesis
    proof (cases "take 3 (strip raw) = ''###''")
      case True
      with ne assms(2) have "tables st' = AList.update (drop 3 (strip raw)) [] (tables st)"
        by (auto simp: pd)
      then show ?thesis by (rule marker)
    next
      case nm: False
      show ?thesis
      proof (cases "current_table st")
        case None
        with ne nm assms(2) have "st' = st" by (simp add: pd)
        then show ?thesis using same by simp
      next
        case (Some ct)
        show ?thesis
        proof (cases "current_headers st = [] \<and> 1 < length (split_on TAB (strip raw))")
          case True
          with ne nm Some assms(2) have "tables st' = tables st" by (auto simp: pd)
          then show ?thesis by (rule same)
        next
          case nh: False
          show ?thesis
          proof (cases "current_headers st \<noteq> [] \<and>
              length (split_on TAB (strip raw)) \<le> length (current_headers st)")
            case False
            from assms(2) have "Inr st = (Inr st' :: error + parse_state)"
              by (simp only: pd ne nm Some nh False if_False option.case simp_thms)
            then have "st' = st" by simp
            then show ?thesis using same by simp
          next
            case True
            show ?thesis
            proof (cases "map_of (tables st) ct")
              case None
              from assms(2) have "Inl KeyError = (Inr st' :: error + parse_state)"
                by (simp only: pd ne nm \<open>current_table st = Some ct\<close> nh True None
                    if_False if_True option.case simp_thms)
              then show ?thesis by simp
            next
              case (Some rows)
              from assms(2)
              have "Inr (st\<lparr>tables := AList.update ct (rows @ [row]) (tables st)\<rparr>)
                  = (Inr st' :: error + parse_state)"
                by (simp only: pd ne nm \<open>current_table st = Some ct\<close> nh True Some
                    if_False if_True option.case simp_thms row_def)
              then have "tables st' = AList.update ct (rows @ [row]) (tables st)" by auto
              with Some show ?thesis by (rule data)
            qed
          qed
        qed
      qed
    qed
  qed
  then show ?thesis
  proof cases
    case same
    with assms(1) show ?thesis by simp
  next
    case marker
    with assms(1) show ?thesis
      unfolding printable_def by (simp add: update_list_all)
  next
    case (data ct rows)
    from data(1) have "(ct, rows) \<in> set (tables st)" by (rule map_of_SomeD)
    with assms(1) have "list_all row_printable rows" by (auto simp: printable_def list_all_iff)
    with rp assms(1) show ?thesis
      unfolding printable_def data(2) by (intro update_list_all) simp_all
  qed
qed

lemma parse_lines_printable:
  "printable (tables st) \<Longrightarrow> parse_lines st ls = Inr st' \<Longrightarrow> printable (tables st')"
proof (induction ls arbitrary: st)
  case Nil
  then show ?case by simp
next
  case (Cons l ls)
  from Cons.prems(2) obtain st1 where 1: "parse_line st l = Inr st1"
    and 2: "parse_lines st1 ls = Inr st'"
    by (auto split: sum.splits)
  from Cons.IH [OF parse_line_printable [OF Cons.prems(1) 1] 2] show ?case .
qed

lemma parse_save_data_printable:
  assumes "parse_save_data d = Inr (tbls, captured)"
  shows "printable tbls"
proof -
  from assms obtain st where st: "parse_lines initial_state (split_on NL d) = Inr st"
    and t: "tbls = tables st"
    by (auto simp: parse_save_data_def split: sum.splits)
  have "printable (tables initial_state)" by (simp add: initial_state_def printable_def)
  from parse_lines_printable [OF this st] t show ?thesis by simp
qed

section \<open>The claims about the envelope codec\<close>

text \<open>
  C1. Whole-buffer decode of whole-buffer encode returns the input, for every byte
  sequence \<open>x\<close>, the empty one included: base64 never produces white space or a
  non-ASCII character, so \<open>strip\<close> and \<open>encode('ascii')\<close> change nothing, the
  non-strict base64 decoder inverts the encoder, and the gzip library reads back the
  member it wrote. The last step is the library's contract and is the hypothesis.
\<close>

theorem decode_encode_roundtrip:
  assumes "gzip_read (gzip_write x) = Some x"
  shows "decode_base64_gzip gzip_read (Str (main_encode gzip_write x)) = Inr x"
  using assms
  by (simp add: decode_base64_gzip_def main_encode_def b64encode_def b64decode_def
      strip_decode_ascii encode_decode_ascii b2a_ascii a2b_b2a)

text \<open>The round trip on the library instance, for two bytes and for the empty input.\<close>

theorem decode_encode_roundtrip_witness:
  "stored_gzip_read (GzipFile_write stored_deflater 0 [0x68, 0x69]) = Some [0x68, 0x69] \<and>
   decode_base64_gzip stored_gzip_read
     (Str (main_encode (GzipFile_write stored_deflater 0) [0x68, 0x69])) = Inr [0x68, 0x69] \<and>
   decode_base64_gzip stored_gzip_read
     (Str (main_encode (GzipFile_write stored_deflater 0) [])) = Inr []"
proof -
  have h: "stored_gzip_read (GzipFile_write stored_deflater 0 [0x68, 0x69]) = Some [0x68, 0x69]"
    by (simp add: stored_defs)
  have h0: "stored_gzip_read (GzipFile_write stored_deflater 0 []) = Some []"
    by (simp add: stored_defs)
  show ?thesis
    using h decode_encode_roundtrip [of stored_gzip_read "GzipFile_write stored_deflater 0" "[0x68, 0x69]"]
      decode_encode_roundtrip [of stored_gzip_read "GzipFile_write stored_deflater 0" "[]"] h0
    by simp
qed

text \<open>
  C3. For every chunk size \<open>c \<ge> 1\<close>, streaming decode over the text that whole-buffer
  encode produced writes exactly the bytes that whole-buffer decode returns for that
  text, and raises nothing. The streaming loop hands the decompressor the member in
  non-empty pieces cut at multiples of three bytes; the hypotheses are the library's
  contract on this member: \<open>GzipFile.read\<close> returns \<open>y\<close>, and a
  \<open>decompressobj\<close> fed the member in any non-empty pieces releases \<open>y\<close> in all.
\<close>

theorem stream_decode_matches_whole:
  assumes c: "1 \<le> c"
    and whole: "gzip_read (gzip_write x) = Some y"
    and inc: "\<forall>ps. concat ps = gzip_write x \<and> [] \<notin> set ps \<longrightarrow> decompress_all z ps = Some y"
  shows "stream_decode_b64_gzip z (main_encode gzip_write x) c = (y, None) \<and>
         decode_base64_gzip gzip_read (Str (main_encode gzip_write x)) = Inr y"
proof -
  define t where "t = b2a_base64 (gzip_write x)"
  have asc: "list_all ascii_nonspace t" by (simp add: t_def b2a_ascii)
  have me: "main_encode gzip_write x = decode_ascii t"
    by (simp add: main_encode_def b64encode_def t_def)
  have bk: "map of_char (decode_ascii t) = t"
    by (induction t) (simp_all add: decode_ascii_def of_char_char_of_byte)
  have asc': "list_all (\<lambda>ch. (of_char ch :: nat) < 128) (decode_ascii t)"
    using asc by (induction t) (auto simp: decode_ascii_def ascii_nonspace_def)
  from stream_decode_loop_b2a [OF c, of "[]" "decode_ascii t" "gzip_write x" z "d_init z" "[]"]
    bk asc'
  obtain ps where ps: "concat ps = gzip_write x" "[] \<notin> set ps"
    and run: "\<And>d' outs. feed z (d_init z) ps = Some (d', outs) \<Longrightarrow>
      stream_decode_loop z c (decode_ascii t) (d_init z) [] [] = (Inr (d', []), outs)"
    by (auto simp: t_def)
  from inc ps have "decompress_all z ps = Some y" by blast
  then obtain d' outs where f: "feed z (d_init z) ps = Some (d', outs)"
    and y: "y = outs @ d_flush z d'"
    by (auto simp: decompress_all_def split: option.splits)
  have "stream_decode_b64_gzip z (decode_ascii t) c = (y, None)"
    by (simp add: stream_decode_b64_gzip_def run [OF f] y)
  moreover have "decode_base64_gzip gzip_read (Str (decode_ascii t)) = Inr y"
    using whole
    by (simp add: decode_base64_gzip_def b64decode_def t_def
        strip_decode_ascii encode_decode_ascii b2a_ascii a2b_b2a)
  ultimately show ?thesis by (simp add: me)
qed

text \<open>Streaming decode with reads of five characters on the library instance.\<close>

theorem stream_decode_matches_whole_witness:
  "stream_decode_b64_gzip collecting_decompressobj
     (main_encode (GzipFile_write stored_deflater 0) [0x68, 0x69]) 5 = ([0x68, 0x69], None) \<and>
   decode_base64_gzip stored_gzip_read
     (Str (main_encode (GzipFile_write stored_deflater 0) [0x68, 0x69])) = Inr [0x68, 0x69]"
proof -
  have c: "(1::int) \<le> 5" by simp
  have h: "stored_gzip_read (GzipFile_write stored_deflater 0 [0x68, 0x69]) = Some [0x68, 0x69]"
    by (simp add: stored_defs)
  have inc: "\<forall>ps. concat ps = GzipFile_write stored_deflater 0 [0x68, 0x69] \<and> [] \<notin> set ps \<longrightarrow>
      decompress_all collecting_decompressobj ps = Some [0x68, 0x69]"
    using h by (simp add: decompress_all_def feed_collecting collecting_sel)
  show ?thesis
    using stream_decode_matches_whole
      [of 5 stored_gzip_read "GzipFile_write stored_deflater 0" "[0x68, 0x69]" "[0x68, 0x69]"
        collecting_decompressobj] c h inc
    by blast
qed

text \<open>
  C4, as stated: streaming encode writes the same text as whole-buffer encode. This
  fails already for the empty input, whatever the DEFLATE compressor, the clock and the
  OS code are: the two paths call different library entry points, and the gzip headers
  these write differ in the XFL byte (0 from zlib's wrapper at level 6, 2 from
  \<open>GzipFile\<close> at level 9), which decides the twelfth character of the text.
\<close>

theorem stream_encode_not_whole_encode:
  "\<forall>eng mtime os_code.
     stream_gzip_base64 (zlib_compressobj eng os_code) [] 8192 ! 11 = CHR ''A'' \<and>
     main_encode (GzipFile_write eng mtime) [] ! 11 = CHR ''C'' \<and>
     stream_gzip_base64 (zlib_compressobj eng os_code) [] 8192
       \<noteq> main_encode (GzipFile_write eng mtime) []"
proof (intro allI)
  fix eng :: "'e deflater" and mtime :: "32 word" and os_code :: byte
  have "compress_all (zlib_compressobj eng os_code) (reads 8192 []) =
      0x1F # 0x8B # 8 # 0 # 0 # 0 # 0 # 0 # 0 #
        (os_code # e_flush eng (e_init eng 6) @ gzip_trailer [])"
    by (simp add: reads_Nil compress_all_def zlib_sel zlib_gzip_header_def)
  then have s: "stream_gzip_base64 (zlib_compressobj eng os_code) [] 8192 ! 11 = CHR ''A''"
    unfolding stream_gzip_base64_eq b64encode_def
    by (simp only: b64_char11 table_A_C)
  obtain m0 m1 m2 m3 where m: "le32 mtime = [m0, m1, m2, m3]"
    by (simp add: le32_def)
  have "GzipFile_write eng mtime [] =
      0x1F # 0x8B # 8 # 0 # m0 # m1 # m2 # m3 # 2 #
        (0xFF # e_flush eng (e_init eng 9) @ gzip_trailer [])"
    by (simp add: GzipFile_write_def m)
  then have w: "main_encode (GzipFile_write eng mtime) [] ! 11 = CHR ''C''"
    unfolding main_encode_def b64encode_def
    by (simp only: b64_char11 table_A_C)
  have "stream_gzip_base64 (zlib_compressobj eng os_code) [] 8192
       \<noteq> main_encode (GzipFile_write eng mtime) []"
  proof
    assume "stream_gzip_base64 (zlib_compressobj eng os_code) [] 8192
       = main_encode (GzipFile_write eng mtime) []"
    with s w have "CHR ''A'' = CHR ''C''" by simp
    then show False by simp
  qed
  with s w show "stream_gzip_base64 (zlib_compressobj eng os_code) [] 8192 ! 11 = CHR ''A'' \<and>
     main_encode (GzipFile_write eng mtime) [] ! 11 = CHR ''C'' \<and>
     stream_gzip_base64 (zlib_compressobj eng os_code) [] 8192
       \<noteq> main_encode (GzipFile_write eng mtime) []" by blast
qed

text \<open>
  C4, amended. For every compressor object, every input and every chunk size
  \<open>c \<ge> 1\<close>, the text that streaming encode writes decodes back to the input with
  whole-buffer decode, and it is the whole-buffer base64 encoding of everything the
  compressor released (the output of each \<open>compress\<close> call in order, then
  \<open>flush\<close>) for the non-empty chunks the reads returned, which add up to the input.
  The hypothesis is the library's contract: \<open>GzipFile.read\<close> returns the input for
  the member that the compressor object releases when it is fed the input in non-empty
  pieces. The text is not the text of whole-buffer encode, whose member has another
  header.
\<close>

theorem stream_encode_decodes_to_input:
  assumes "1 \<le> c"
    and "\<forall>ps. concat ps = infile \<and> [] \<notin> set ps \<longrightarrow> gzip_read (compress_all z ps) = Some infile"
  shows "decode_base64_gzip gzip_read (Str (stream_gzip_base64 z infile c)) = Inr infile \<and>
         stream_gzip_base64 z infile c = decode_ascii (b64encode (compress_all z (reads c infile))) \<and>
         concat (reads c infile) = infile \<and> [] \<notin> set (reads c infile)"
proof -
  from assms(1) have c: "c \<noteq> 0" by simp
  have r: "concat (reads c infile) = infile" "[] \<notin> set (reads c infile)"
    using concat_reads [OF c] reads_nonempty by auto
  with assms(2) have "gzip_read (compress_all z (reads c infile)) = Some infile" by blast
  then have "decode_base64_gzip gzip_read (Str (stream_gzip_base64 z infile c)) = Inr infile"
    by (simp add: stream_gzip_base64_eq decode_b64encode)
  with r show ?thesis by (simp add: stream_gzip_base64_eq)
qed

text \<open>Streaming encode of two bytes, read one byte at a time, on the library instance.\<close>

theorem stream_encode_decodes_to_input_witness:
  "decode_base64_gzip stored_gzip_read
     (Str (stream_gzip_base64 (zlib_compressobj stored_deflater 3) [0x68, 0x69] 1)) = Inr [0x68, 0x69]
   \<and> stream_gzip_base64 (zlib_compressobj stored_deflater 3) [0x68, 0x69] 1 =
       decode_ascii (b64encode
         (compress_all (zlib_compressobj stored_deflater 3) (reads 1 [0x68, 0x69])))
   \<and> reads 1 [0x68, 0x69 :: byte] = [[0x68], [0x69]]"
proof -
  have c: "(1::int) \<le> 1" by simp
  have g: "stored_gzip_read (zlib_gzip_header 3 @ stored_blocks [0x68, 0x69] @ gzip_trailer [0x68, 0x69])
      = Some [0x68, 0x69]"
    by (simp add: stored_defs zlib_gzip_header_def)
  have h: "\<forall>ps. concat ps = [0x68, 0x69] \<and> [] \<notin> set ps \<longrightarrow>
      stored_gzip_read (compress_all (zlib_compressobj stored_deflater 3) ps) = Some [0x68, 0x69]"
    using g by (simp add: stored_compress_all)
  have r: "reads 1 [0x68, 0x69 :: byte] = [[0x68], [0x69]]"
    by (simp add: reads.simps [of 1] file_read_def)
  from stream_encode_decodes_to_input
    [of 1 "[0x68, 0x69]" stored_gzip_read "zlib_compressobj stored_deflater 3"] c h r
  show ?thesis by blast
qed

text \<open>
  C6, as stated: every input with a character outside the base64 alphabet makes decode
  fail with the base64-stage error. The decoder is called in its non-strict mode and
  skips such characters: \<open>AAAA!\<close> decodes to three zero bytes, so the base64 stage
  succeeds and any failure is the gzip stage's. A \<open>str\<close> with a non-ASCII character
  raises \<open>UnicodeEncodeError\<close> from \<open>encode('ascii')\<close>, before the \<open>try\<close> of the
  base64 stage.
\<close>

theorem skipped_character_counterexample:
  "b64decode (map of_char ''AAAA!'') = Some [0, 0, 0] \<and>
   (\<forall>gzip_read. decode_base64_gzip gzip_read (Str ''AAAA!'')
       \<noteq> Inl (ValueError ''base64 decode failed'')) \<and>
   (\<forall>gzip_read. decode_base64_gzip gzip_read (Str [CHR 0xE9]) = Inl UnicodeEncodeError)"
proof -
  have d: "b64decode (map of_char ''AAAA!'') = Some [0, 0, 0]"
    by (simp add: b64decode_def a2b_base64_def table_a2b_base64_def BASE64_PAD_def)
  have st: "strip ''AAAA!'' = ''AAAA!''" "strip [CHR 0xE9] = [CHR 0xE9]"
    by (simp_all add: strip_def lstrip_def rstrip_def py_isspace_def)
  have "decode_base64_gzip gzip_read (Str ''AAAA!'') \<noteq> Inl (ValueError ''base64 decode failed'')"
    for gzip_read
    using d by (simp add: decode_base64_gzip_def st encode_ascii_def split: option.splits)
  moreover have "decode_base64_gzip gzip_read (Str [CHR 0xE9]) = Inl UnicodeEncodeError"
    for gzip_read
    by (simp add: decode_base64_gzip_def st encode_ascii_def)
  ultimately show ?thesis using d by blast
qed

text \<open>
  C6, amended. For every input, \<open>str\<close> or \<open>bytes\<close>, decode fails with the
  base64-stage error exactly when the bytes handed to the decoder (for a \<open>str\<close>, the
  stripped text, which must be ASCII; for \<open>bytes\<close>, the input itself) have no
  completing pad and their alphabet characters do not fill whole groups of four. Bytes
  outside the alphabet are skipped and do not make the stage fail; a pad completes the
  input after three alphabet characters of a group, or as the second pad in a row after
  two. In particular \<open>not-valid-base64!!\<close>, with 14 alphabet characters, and the
  wrongly padded \<open>Zg=\<close>, as \<open>str\<close> or as \<open>bytes\<close>, raise the base64-stage
  error, while \<open>Zg==\<close> passes the stage.
\<close>

theorem base64_stage_error_iff:
  "(decode_base64_gzip gzip_read data = Inl (ValueError ''base64 decode failed'')) =
     (case data of
        Str s \<Rightarrow> list_all (\<lambda>c. (of_char c :: nat) < 128) (strip s) \<and>
                 base64_fails (map of_char (strip s))
      | Bytes b \<Rightarrow> base64_fails b) \<and>
   decode_base64_gzip gzip_read (Str ''not-valid-base64!!'')
     = Inl (ValueError ''base64 decode failed'') \<and>
   decode_base64_gzip gzip_read (Str ''Zg='') = Inl (ValueError ''base64 decode failed'') \<and>
   decode_base64_gzip gzip_read (Bytes [0x5A, 0x67, 0x3D]) = Inl (ValueError ''base64 decode failed'') \<and>
   decode_base64_gzip gzip_read (Str ''Zg=='')
     = (case gzip_read [0x66] of
          None \<Rightarrow> Inl (ValueError ''gzip decompress failed'')
        | Some out \<Rightarrow> Inr out)"
proof -
  have b: "(decode_base64_gzip gzip_read (Bytes raw) = Inl (ValueError ''base64 decode failed''))
      = base64_fails raw" for raw
    using a2b_base64_fails [of raw]
    by (cases "a2b_base64 raw")
       (auto simp: decode_base64_gzip_def b64decode_def split: option.splits)
  have s: "(decode_base64_gzip gzip_read (Str t) = Inl (ValueError ''base64 decode failed''))
      = (list_all (\<lambda>c. (of_char c :: nat) < 128) (strip t) \<and> base64_fails (map of_char (strip t)))"
    for t
  proof (cases "list_all (\<lambda>c. (of_char c :: nat) < 128) (strip t)")
    case False
    then show ?thesis by (simp add: decode_base64_gzip_def encode_ascii_def)
  next
    case True
    then show ?thesis
      using a2b_base64_fails [of "map of_char (strip t)"]
      by (cases "a2b_base64 (map of_char (strip t))")
         (auto simp: decode_base64_gzip_def encode_ascii_def b64decode_def split: option.splits)
  qed
  have gen: "(decode_base64_gzip gzip_read data = Inl (ValueError ''base64 decode failed'')) =
     (case data of
        Str s \<Rightarrow> list_all (\<lambda>c. (of_char c :: nat) < 128) (strip s) \<and>
                 base64_fails (map of_char (strip s))
      | Bytes b \<Rightarrow> base64_fails b)"
    by (cases data) (simp_all add: b s)
  have st: "strip ''not-valid-base64!!'' = ''not-valid-base64!!''" "strip ''Zg='' = ''Zg=''"
    "strip ''Zg=='' = ''Zg==''"
    by (simp_all add: strip_def lstrip_def rstrip_def py_isspace_def)
  have np: "BASE64_PAD \<notin> set (map of_char ''not-valid-base64!!'' :: bytes)"
    by (simp add: BASE64_PAD_def)
  have "length (data_chars (map of_char ''not-valid-base64!!'')) = 14"
    by (simp add: data_chars_def table_a2b_base64_def)
  with a2b_loop_nopad [OF np, of 0 0 0 "[]"]
  have "a2b_base64 (map of_char ''not-valid-base64!!'') = None"
    by (simp add: a2b_base64_def)
  then have e1: "decode_base64_gzip gzip_read (Str ''not-valid-base64!!'')
     = Inl (ValueError ''base64 decode failed'')"
    by (simp add: decode_base64_gzip_def st encode_ascii_def b64decode_def)
  have z: "a2b_base64 [0x5A, 0x67, 0x3D] = None"
    by (simp add: a2b_base64_def table_a2b_base64_def BASE64_PAD_def)
  have e2: "decode_base64_gzip gzip_read (Str ''Zg='') = Inl (ValueError ''base64 decode failed'')"
    using z by (simp add: decode_base64_gzip_def st encode_ascii_def b64decode_def)
  have e3: "decode_base64_gzip gzip_read (Bytes [0x5A, 0x67, 0x3D])
      = Inl (ValueError ''base64 decode failed'')"
    using z by (simp add: decode_base64_gzip_def b64decode_def)
  have z2: "a2b_base64 [0x5A, 0x67, 0x3D, 0x3D] = Some [0x66]"
    by (simp add: a2b_base64_def table_a2b_base64_def BASE64_PAD_def)
  have e4: "decode_base64_gzip gzip_read (Str ''Zg=='')
     = (case gzip_read [0x66] of
          None \<Rightarrow> Inl (ValueError ''gzip decompress failed'')
        | Some out \<Rightarrow> Inr out)"
    using z2 by (simp add: decode_base64_gzip_def st encode_ascii_def b64decode_def)
  from gen e1 e2 e3 e4 show ?thesis by blast
qed

section \<open>The claims about the table serializer\<close>

text \<open>
  C5, as stated: for every cell text the \<open>try\<close> block of \<open>parse_save_data\<close> yields
  the cell that the specification's rule prescribes (\<open>type_inference\<close>). The text of
  4301 ones is all digits, so the rule makes it an Integer; \<open>int\<close> refuses a text of
  more than 4300 digits with a ValueError, the \<open>except\<close> clause catches it, and the
  cell stays the text.
\<close>

theorem long_integer_text_stays_text:
  "convert_value (replicate 4301 CHR ''1'') = Text (replicate 4301 CHR ''1'') \<and>
   type_inference (replicate 4301 CHR ''1'') = Integer (int_of_text (replicate 4301 CHR ''1''))"
proof -
  define v where "v = replicate 4301 CHR ''1''"
  have d: "all_digits v"
    by (simp add: v_def all_digits_def list_all_iff py_isdecimal_def)
  from all_digits_no_point [OF d] have u: "unsigned_part v = v" and p: "CHR ''.'' \<notin> set v"
    by simp_all
  have l: "int_max_str_digits < length (unsigned_part v)"
    unfolding u by (simp add: v_def int_max_str_digits_def)
  have "convert_value v = Text v"
    using d l by (simp add: convert_value_limited u)
  moreover have "type_inference v = Integer (int_of_text v)"
    using d p by (simp add: type_inference_def)
  ultimately show ?thesis by (simp add: v_def)
qed

text \<open>
  C5, amended. For every cell text the \<open>try\<close> block of \<open>parse_save_data\<close> yields the
  cell the specification's rule prescribes (Float when the text has a decimal point
  and is digits once one leading minus sign and the decimal point are stripped, else
  Integer when it is all digits or one minus sign and digits, else Text, the empty
  string included), except that a text of digits, or of one minus sign and digits,
  with more than 4300 digits stays Text. In particular \<open>123\<close>, \<open>-45\<close>, \<open>3.14\<close>,
  \<open>-0.5\<close>, \<open>abc\<close>, the empty string and \<open>12.3.4\<close> give Integer 123, Integer -45,
  Float 3.14, Float -0.5, Text, Text and Text.
\<close>

theorem type_inference_rule:
  "convert_value v =
     (if all_digits (unsigned_part v) \<and> 4300 < length (unsigned_part v)
      then Text v else type_inference v) \<and>
   convert_value ''123'' = Integer 123 \<and>
   convert_value ''-45'' = Integer (- 45) \<and>
   convert_value ''3.14'' = Float (314 / 100) \<and>
   convert_value ''-0.5'' = Float (- (5 / 10)) \<and>
   convert_value ''abc'' = Text ''abc'' \<and>
   convert_value '''' = Text '''' \<and>
   convert_value ''12.3.4'' = Text ''12.3.4''"
proof -
  have "convert_value ''123'' = Integer 123" by (simp add: convert_defs)
  moreover have "convert_value ''-45'' = Integer (- 45)" by (simp add: convert_defs)
  moreover have "convert_value ''3.14'' = Float (314 / 100)" by (simp add: convert_defs)
  moreover have "convert_value ''-0.5'' = Float (- (5 / 10))" by (simp add: convert_defs)
  moreover have "convert_value ''abc'' = Text ''abc''" by (simp add: convert_defs)
  moreover have "convert_value '''' = Text ''''" by (simp add: convert_defs)
  moreover have "convert_value ''12.3.4'' = Text ''12.3.4''" by (simp add: convert_defs)
  moreover have "convert_value v =
     (if all_digits (unsigned_part v) \<and> 4300 < length (unsigned_part v)
      then Text v else type_inference v)"
    using convert_value_limited [of v] by (simp add: int_max_str_digits_def)
  ultimately show ?thesis by blast
qed

text \<open>
  C7. In a state the loop can reach, a data line with fewer fields than the captured
  header has columns appends one row to the current table; the row has every header
  column as a key, each column beyond the fields of the line holds the empty-string
  Text cell, and when the header names are distinct the row is the header zipped with
  the cells of the fields followed by the padding.
\<close>

theorem short_row_is_padded:
  assumes reach: "parse_lines initial_state before = Inr st"
    and hs: "current_headers st = hs"
    and ne: "strip raw \<noteq> []" and nm: "take 3 (strip raw) \<noteq> ''###''"
    and parts: "split_on TAB (strip raw) = parts" and short: "length parts < length hs"
  shows "\<exists>ct rows row.
     current_table st = Some ct \<and> map_of (tables st) ct = Some rows \<and>
     parse_line st raw = Inr (st\<lparr>tables := AList.update ct (rows @ [row]) (tables st)\<rparr>) \<and>
     fst ` set row = set hs \<and>
     (\<forall>j. length parts \<le> j \<and> j < length hs \<longrightarrow> map_of row (hs ! j) = Some (Text '''')) \<and>
     (distinct hs \<longrightarrow>
        row = zip hs (map convert_value (parts @ replicate (length hs - length parts) '''')))"
proof -
  from parse_lines_ok [OF initial_state_ok, of before] reach have ok: "state_ok st" by simp
  have hne: "hs \<noteq> []" using short by auto
  with ok hs obtain ct rows where ct: "current_table st = Some ct"
    and rows: "map_of (tables st) ct = Some rows"
    by (auto simp: state_ok_def split: option.splits)
  define parts' where "parts' = parts @ replicate (length hs - length parts) ''''"
  define row where "row = build_row hs parts' 0 []"
  have len: "length parts' = length hs" using short by (simp add: parts'_def)
  have step: "parse_line st raw = Inr (st\<lparr>tables := AList.update ct (rows @ [row]) (tables st)\<rparr>)"
    using ne nm ct rows hs hne short parts
    by (simp add: parse_line_def Let_def pad_parts_eq row_def parts'_def)
  have keys: "fst ` set row = set hs" by (simp add: row_def build_row_keys)
  have pad: "map_of row (hs ! j) = Some (Text [])" if "length parts \<le> j" "j < length hs" for j
  proof -
    have e: "part_at parts' m = []" if "length parts \<le> m" for m
      using that by (simp add: part_at_def parts'_def nth_append)
    have e0: "part_at parts' (0 + j) = []" using e [of j] that(1) by simp
    have e1: "\<forall>j'. j < j' \<and> j' < length hs \<and> hs ! j' = hs ! j \<longrightarrow> part_at parts' (0 + j') = []"
    proof (intro allI impI)
      fix j' assume "j < j' \<and> j' < length hs \<and> hs ! j' = hs ! j"
      then have "length parts \<le> j'" using that(1) by simp
      then show "part_at parts' (0 + j') = []" using e [of j'] by simp
    qed
    have "map_of (build_row hs parts' 0 []) (hs ! j) = Some (convert_value [])"
      using build_row_last [OF that(2) refl e0 e1] .
    then show ?thesis by (simp add: row_def convert_value_empty)
  qed
  have dis: "row = zip hs (map convert_value parts')" if "distinct hs"
    using build_row_distinct [OF that, of "[]" 0 parts'] len by (simp add: row_def)
  have "current_table st = Some ct \<and> map_of (tables st) ct = Some rows \<and>
     parse_line st raw = Inr (st\<lparr>tables := AList.update ct (rows @ [row]) (tables st)\<rparr>) \<and>
     fst ` set row = set hs \<and>
     (\<forall>j. length parts \<le> j \<and> j < length hs \<longrightarrow> map_of row (hs ! j) = Some (Text [])) \<and>
     (distinct hs \<longrightarrow>
        row = zip hs (map convert_value (parts @ replicate (length hs - length parts) [])))"
    using ct rows step keys pad dis unfolding parts'_def by simp
  then show ?thesis by (intro exI)
qed

text \<open>
  The specification's example: header \<open>A, B, C\<close> and the data row \<open>1<TAB>2\<close> give
  the row \<open>A: 1, B: 2, C: ''\<close>.
\<close>

theorem short_row_is_padded_witness:
  "parse_save_data (''###T'' @ [NL] @ ''A'' @ [TAB] @ ''B'' @ [TAB] @ ''C'' @ [NL] @ ''1'' @ [TAB] @ ''2'')
     = Inr ([(''T'', [[(''A'', Integer 1), (''B'', Integer 2), (''C'', Text '''')]])],
            [(''T'', [''A'', ''B'', ''C''])])"
proof -
  define st0 where "st0 = \<lparr>tables = [(''T'', [])], table_headers = [(''T'', [''A'', ''B'', ''C''])],
    current_table = Some ''T'', current_headers = [''A'', ''B'', ''C'']\<rparr>"
  define raw where "raw = ''1'' @ [TAB] @ ''2''"
  have reach: "parse_lines initial_state [''###T'', ''A'' @ [TAB] @ ''B'' @ [TAB] @ ''C''] = Inr st0"
    by (simp add: line_defs initial_state_def st0_def)
  have hs: "current_headers st0 = [''A'', ''B'', ''C'']" by (simp add: st0_def)
  have s: "strip raw = raw" by (simp add: raw_def line_defs)
  have ne: "strip raw \<noteq> []" and nm: "take 3 (strip raw) \<noteq> ''###''"
    by (simp_all add: s) (simp_all add: raw_def)
  have parts: "split_on TAB (strip raw) = [''1'', ''2'']" by (simp add: s) (simp add: raw_def TAB_def)
  have short: "length [''1'', ''2''] < length [''A'', ''B'', ''C'']" by simp
  from short_row_is_padded [OF reach hs ne nm parts short]
  obtain ct rows row where ct: "current_table st0 = Some ct"
    and rows: "map_of (tables st0) ct = Some rows"
    and step: "parse_line st0 raw = Inr (st0\<lparr>tables := AList.update ct (rows @ [row]) (tables st0)\<rparr>)"
    and row: "distinct [''A'', ''B'', ''C''] \<longrightarrow>
        row = zip [''A'', ''B'', ''C'']
          (map convert_value ([''1'', ''2''] @
             replicate (length [''A'', ''B'', ''C''] - length [''1'', ''2'']) ''''))"
    by blast
  from ct have "ct = ''T''" by (simp add: st0_def)
  with rows have "rows = []" by (simp add: st0_def)
  from row have "row = [(''A'', Integer 1), (''B'', Integer 2), (''C'', Text '''')]"
    by (simp add: convert_defs numeral_2_eq_2 numeral_3_eq_3)
  with step \<open>ct = ''T''\<close> \<open>rows = []\<close>
  have step': "parse_line st0 raw =
      Inr (st0\<lparr>tables := [(''T'', [[(''A'', Integer 1), (''B'', Integer 2), (''C'', Text '''')]])]\<rparr>)"
    by (simp add: st0_def)
  have lines: "split_on NL (''###T'' @ [NL] @ ''A'' @ [TAB] @ ''B'' @ [TAB] @ ''C'' @ [NL] @ ''1'' @ [TAB] @ ''2'')
      = [''###T'', ''A'' @ [TAB] @ ''B'' @ [TAB] @ ''C'', raw]"
    by (simp add: raw_def NL_def TAB_def)
  have "parse_lines initial_state [''###T'', ''A'' @ [TAB] @ ''B'' @ [TAB] @ ''C'', raw] =
      Inr (st0\<lparr>tables := [(''T'', [[(''A'', Integer 1), (''B'', Integer 2), (''C'', Text '''')]])]\<rparr>)"
    using parse_lines_append [OF reach, of "[raw]"] step' by simp
  then show ?thesis
    unfolding parse_save_data_def lines by (simp add: st0_def)
qed


text \<open>
  C8, as stated: every line whose tab-split field count exceeds the number of header
  columns is skipped. The fields are counted after \<open>line.strip()\<close>, which removes
  trailing tabs: under the header \<open>A, B\<close> the line \<open>1<TAB>2<TAB>\<close> splits at tabs
  into three fields, yet its stripped form has two, and the row \<open>A: 1, B: 2\<close> is
  appended.
\<close>

theorem trailing_tab_row_is_appended:
  "length (split_on TAB (''1'' @ [TAB] @ ''2'' @ [TAB])) = 3 \<and>
   parse_save_data (''###T'' @ [NL] @ ''A'' @ [TAB] @ ''B'' @ [NL] @ ''1'' @ [TAB] @ ''2'' @ [TAB])
     = Inr ([(''T'', [[(''A'', Integer 1), (''B'', Integer 2)]])], [(''T'', [''A'', ''B''])])"
proof -
  have c1: "convert_value ''1'' = Integer 1" by (simp add: convert_defs)
  have c2: "convert_value ''2'' = Integer 2" by (simp add: convert_defs)
  have "length (split_on TAB (''1'' @ [TAB] @ ''2'' @ [TAB])) = 3"
    by (simp add: TAB_def)
  moreover have "parse_save_data
      (''###T'' @ [NL] @ ''A'' @ [TAB] @ ''B'' @ [NL] @ ''1'' @ [TAB] @ ''2'' @ [TAB])
     = Inr ([(''T'', [[(''A'', Integer 1), (''B'', Integer 2)]])], [(''T'', [''A'', ''B''])])"
    by (simp add: parse_save_data_def line_defs initial_state_def part_at_def c1 c2)
  ultimately show ?thesis by blast
qed

text \<open>
  C8, amended. While a header is held, a line that is not a table marker and whose
  stripped form (\<open>line.strip()\<close>, which drops leading and trailing white space, tabs
  included) splits at tabs into more fields than the header has columns leaves the
  state as it is: no row is appended, and the loop goes on with the next line.
\<close>

theorem long_row_is_skipped:
  assumes "current_headers st \<noteq> []"
    and "take 3 (strip raw) \<noteq> ''###''"
    and "length (current_headers st) < length (split_on TAB (strip raw))"
  shows "parse_line st raw = Inr st \<and> parse_lines st (raw # rest) = parse_lines st rest"
proof -
  have "parse_line st raw = Inr st"
    using assms by (auto simp: parse_line_def Let_def split: option.splits)
  then show ?thesis by simp
qed

text \<open>A line of three fields under a header of two columns.\<close>

theorem long_row_is_skipped_witness:
  "parse_line \<lparr>tables = [(''T'', [])], table_headers = [(''T'', [''A'', ''B''])],
        current_table = Some ''T'', current_headers = [''A'', ''B'']\<rparr>
      (''1'' @ [TAB] @ ''2'' @ [TAB] @ ''3'')
    = Inr \<lparr>tables = [(''T'', [])], table_headers = [(''T'', [''A'', ''B''])],
        current_table = Some ''T'', current_headers = [''A'', ''B'']\<rparr>"
proof -
  define st0 where "st0 = \<lparr>tables = [(''T'', [])], table_headers = [(''T'', [''A'', ''B''])],
        current_table = Some ''T'', current_headers = [''A'', ''B'']\<rparr>"
  define raw where "raw = ''1'' @ [TAB] @ ''2'' @ [TAB] @ ''3''"
  have s: "strip raw = raw" by (simp add: raw_def line_defs)
  have 1: "current_headers st0 \<noteq> []" by (simp add: st0_def)
  have 2: "take 3 (strip raw) \<noteq> ''###''" by (simp add: s) (simp add: raw_def)
  have 3: "length (current_headers st0) < length (split_on TAB (strip raw))"
    by (simp add: s) (simp add: raw_def st0_def TAB_def)
  from long_row_is_skipped [OF 1 2 3] show ?thesis by (simp add: st0_def raw_def)
qed

text \<open>
  C9. Let the headers be those captured by \<open>parse_save_data\<close>, and let a table set
  hold, between the tables \<open>pre\<close> and \<open>post\<close>, a table \<open>name\<close> with rows and the
  captured header \<open>hs\<close>. Whenever \<open>save_as_yls\<close> returns, its text is the text for
  \<open>pre\<close>, then for this table the marker line, the header line made of the captured
  names in the captured order, one line per row with the cells looked up by name in
  that same order (whatever the order of the row's own keys, a key missing from the
  row giving the empty string) and the blank line, then the text for \<open>post\<close>. It
  returns whenever \<open>str\<close> accepts every \<open>int\<close> cell, which holds of the tables that
  \<open>parse_save_data\<close> returned. Splitting the header line at tabs gives the captured
  names back, and splitting the line of a row whose texts have no tab gives the texts
  of its cells in the captured order.
\<close>

theorem format_uses_captured_order:
  assumes "parse_save_data d = Inr (parsed, captured)"
    and "map_of captured name = Some hs"
    and "rows \<noteq> []"
  shows "(\<forall>text. save_as_yls_text float_repr (pre @ (name, rows) # post) captured = Inr text \<longrightarrow>
            (\<exists>before after.
               save_as_yls_text float_repr pre captured = Inr before \<and>
               save_as_yls_text float_repr post captured = Inr after \<and>
               text = before @ ''###'' @ name @ [NL] @ join [TAB] hs @ [NL] @
                      concat (map (\<lambda>row.
                         join [TAB] (map (\<lambda>col. case map_of row col of
                                                   None \<Rightarrow> [] | Some v \<Rightarrow> cell_text float_repr v) hs)
                         @ [NL]) rows) @
                      [NL] @ after)) \<and>
         (printable (pre @ (name, rows) # post) \<longrightarrow>
            (\<exists>text. save_as_yls_text float_repr (pre @ (name, rows) # post) captured = Inr text)) \<and>
         printable parsed \<and>
         split_on TAB (join [TAB] hs) = hs \<and>
         (\<forall>row \<in> set rows.
            (\<forall>col \<in> set hs. TAB \<notin> set (case map_of row col of
                                            None \<Rightarrow> [] | Some v \<Rightarrow> cell_text float_repr v)) \<longrightarrow>
            split_on TAB (join [TAB] (map (\<lambda>col. case map_of row col of
                                              None \<Rightarrow> [] | Some v \<Rightarrow> cell_text float_repr v) hs))
              = map (\<lambda>col. case map_of row col of
                              None \<Rightarrow> [] | Some v \<Rightarrow> cell_text float_repr v) hs)"
proof -
  from captured_headers [OF assms(1,2)] have hne: "hs \<noteq> []" and nt: "\<forall>h \<in> set hs. TAB \<notin> set h"
    by auto
  have sh: "split_on TAB (join [TAB] hs) = hs" using nt hne by (intro split_on_join) auto
  have fl: "(\<lambda>col. case map_of row col of None \<Rightarrow> [] | Some v \<Rightarrow> cell_text float_repr v)
      = field_text float_repr row" for row
    by (rule ext) (simp add: field_text_def)
  have sr: "\<forall>row \<in> set rows. (\<forall>col \<in> set hs. TAB \<notin> set (field_text float_repr row col)) \<longrightarrow>
      split_on TAB (join [TAB] (map (field_text float_repr row) hs))
        = map (field_text float_repr row) hs"
  proof (intro ballI impI)
    fix row assume "\<forall>col \<in> set hs. TAB \<notin> set (field_text float_repr row col)"
    then show "split_on TAB (join [TAB] (map (field_text float_repr row) hs))
        = map (field_text float_repr row) hs"
      using hne by (intro split_on_join) auto
  qed
  have hf: "headers_for captured (name, rows) = hs" by (simp add: headers_for_def assms(2))
  have bl: "table_block float_repr captured (name, rows) =
      ''###'' @ name @ [NL] @ join [TAB] hs @ [NL] @
      concat (map (\<lambda>row. join [TAB] (map (field_text float_repr row) hs) @ [NL]) rows) @ [NL]"
    using assms(3)
    by (simp add: table_block_def hf table_lines_def unlines_def row_line_def comp_def)
  have 1: "\<forall>text. save_as_yls_text float_repr (pre @ (name, rows) # post) captured = Inr text \<longrightarrow>
            (\<exists>before after.
               save_as_yls_text float_repr pre captured = Inr before \<and>
               save_as_yls_text float_repr post captured = Inr after \<and>
               text = before @ ''###'' @ name @ [NL] @ join [TAB] hs @ [NL] @
                      concat (map (\<lambda>row. join [TAB] (map (field_text float_repr row) hs) @ [NL]) rows) @
                      [NL] @ after)"
  proof (intro allI impI)
    fix tx
    assume "save_as_yls_text float_repr (pre @ (name, rows) # post) captured = Inr tx"
    from save_text_split [OF this] obtain before after where
      "save_as_yls_text float_repr pre captured = Inr before"
      "save_as_yls_text float_repr post captured = Inr after"
      "tx = before @ table_block float_repr captured (name, rows) @ after"
      by blast
    then show "\<exists>before after.
               save_as_yls_text float_repr pre captured = Inr before \<and>
               save_as_yls_text float_repr post captured = Inr after \<and>
               tx = before @ ''###'' @ name @ [NL] @ join [TAB] hs @ [NL] @
                      concat (map (\<lambda>row. join [TAB] (map (field_text float_repr row) hs) @ [NL]) rows) @
                      [NL] @ after"
      by (simp add: bl)
  qed
  have 2: "printable (pre @ (name, rows) # post) \<longrightarrow>
      (\<exists>text. save_as_yls_text float_repr (pre @ (name, rows) # post) captured = Inr text)"
    using save_text_printable [of "pre @ (name, rows) # post" float_repr captured] by blast
  have 3: "printable parsed" by (rule parse_save_data_printable [OF assms(1)])
  from 1 2 3 sh sr show ?thesis unfolding fl [symmetric] by blast
qed

text \<open>
  A table whose first row lacks column \<open>A\<close> and whose second row has its keys in the
  other order, followed by a table without rows.
\<close>

theorem format_uses_captured_order_witness:
  "save_as_yls_text (\<lambda>q. [])
     [(''T'', [[(''B'', Text ''x'')], [(''B'', Integer 5), (''A'', Text ''y'')]]), (''U'', [])]
     [(''T'', [''A'', ''B''])]
     = Inr (''###T'' @ [NL] @ ''A'' @ [TAB] @ ''B'' @ [NL] @ [TAB] @ ''x'' @ [NL] @
            ''y'' @ [TAB] @ ''5'' @ [NL, NL] @ ''###U'' @ [NL, NL])"
proof -
  have p: "parse_save_data (''###T'' @ [NL] @ ''A'' @ [TAB] @ ''B'')
      = Inr ([(''T'', [])], [(''T'', [''A'', ''B''])])"
    by (simp add: parse_save_data_def line_defs initial_state_def)
  have m: "map_of [(''T'', [''A'', ''B''])] ''T'' = Some [''A'', ''B'']" by simp
  have r: "[[(''B'', Text ''x'')], [(''B'', Integer 5), (''A'', Text ''y'')]] \<noteq> []" by simp
  have i5: "int_printable 5" by (rule small_int_printable) simp
  have pr: "printable ([] @ (''T'', [[(''B'', Text ''x'')], [(''B'', Integer 5), (''A'', Text ''y'')]])
      # [(''U'', [])])"
    by (simp add: printable_def row_printable_def i5)
  have c5: "char_of (53::nat) = CHR ''5''" by code_simp
  have t5: "int_text 5 = ''5''"
    by (simp add: int_text_def digits_of_nat.simps [of 5] c5)
  have b: "save_as_yls_text (\<lambda>q. []) [] [(''T'', [''A'', ''B''])] = Inr []"
    by (simp add: save_as_yls_text_def)
  have a: "save_as_yls_text (\<lambda>q. []) [(''U'', [])] [(''T'', [''A'', ''B''])] = Inr (''###U'' @ [NL, NL])"
    by (simp add: save_as_yls_text_def table_text_def)
  note th = format_uses_captured_order [OF p m r, of "\<lambda>q. []" "[]" "[(''U'', [])]"]
  from th pr obtain tx where t: "save_as_yls_text (\<lambda>q. [])
      ([] @ (''T'', [[(''B'', Text ''x'')], [(''B'', Integer 5), (''A'', Text ''y'')]]) # [(''U'', [])])
      [(''T'', [''A'', ''B''])] = Inr tx"
    by blast
  with th obtain before after where
    "save_as_yls_text (\<lambda>q. []) [] [(''T'', [''A'', ''B''])] = Inr before"
    "save_as_yls_text (\<lambda>q. []) [(''U'', [])] [(''T'', [''A'', ''B''])] = Inr after"
    "tx = before @ ''###'' @ ''T'' @ [NL] @ join [TAB] [''A'', ''B''] @ [NL] @
       concat (map (\<lambda>row. join [TAB] (map (\<lambda>col. case map_of row col of
                  None \<Rightarrow> [] | Some v \<Rightarrow> cell_text (\<lambda>q. []) v) [''A'', ''B'']) @ [NL])
          [[(''B'', Text ''x'')], [(''B'', Integer 5), (''A'', Text ''y'')]]) @ [NL] @ after"
    by blast
  with a b t show ?thesis by (simp add: t5)
qed

text \<open>
  C10. \<open>parse_save_data\<close> returns for every input string: the conversions that fail
  fall back to Text inside the \<open>try\<close>, and \<open>tables[current_table]\<close> never raises
  KeyError because \<open>current_table\<close> is always a key of \<open>tables\<close>.
\<close>

theorem parse_save_data_total: "\<exists>tbls hdrs. parse_save_data d = Inr (tbls, hdrs)"
proof -
  from parse_lines_ok [OF initial_state_ok, of "split_on NL d"]
  obtain st where "parse_lines initial_state (split_on NL d) = Inr st" by blast
  then show ?thesis by (simp add: parse_save_data_def)
qed

section \<open>Claim C2: parsing what was formatted\<close>




end
